theory Spec2Isabelle
  imports Main "HOL-Library.Word"
begin

unbundle bit_operations_syntax

section \<open>Machine integers and byte buffers\<close>

text \<open>
  The C source works on \<open>uint8_t\<close>, \<open>uint32_t\<close> and \<open>uint64_t\<close>. They are words of
  that width, so \<open>+\<close> and \<open>*\<close> wrap around as in C. A buffer (\<open>uint8_t *\<close> with its
  length) is a list of bytes. The build target is WebAssembly, which is little-endian:
  a \<open>memcpy\<close> between a \<open>uint64_t\<close> and eight bytes, and a load or store through a
  \<open>uint64_t *\<close>, put the least significant byte first.
\<close>

type_synonym u8 = "8 word"
type_synonym u32 = "32 word"
type_synonym u64 = "64 word"

definition read_bytes :: "u8 list \<Rightarrow> nat \<Rightarrow> nat \<Rightarrow> u8 list" where
  "read_bytes m off n = take n (drop off m)"

definition write_bytes :: "u8 list \<Rightarrow> nat \<Rightarrow> u8 list \<Rightarrow> u8 list" where
  "write_bytes m off bs = take off m @ bs @ drop (off + length bs) m"

definition load64 :: "u8 list \<Rightarrow> u64" where
  "load64 bs =
     ucast (bs ! 0) OR push_bit 8 (ucast (bs ! 1)) OR push_bit 16 (ucast (bs ! 2))
       OR push_bit 24 (ucast (bs ! 3)) OR push_bit 32 (ucast (bs ! 4))
       OR push_bit 40 (ucast (bs ! 5)) OR push_bit 48 (ucast (bs ! 6))
       OR push_bit 56 (ucast (bs ! 7))"

definition store64 :: "u64 \<Rightarrow> u8 list" where
  "store64 w =
     [ucast w, ucast (drop_bit 8 w), ucast (drop_bit 16 w), ucast (drop_bit 24 w),
      ucast (drop_bit 32 w), ucast (drop_bit 40 w), ucast (drop_bit 48 w),
      ucast (drop_bit 56 w)]"

section \<open>Keccak-f[1600] and Keccak-1600\<close>

definition keccak_rc :: "u64 list" where
  "keccak_rc =
    [0x0000000000000001, 0x0000000000008082, 0x800000000000808a,
     0x8000000080008000, 0x000000000000808b, 0x0000000080000001,
     0x8000000080008081, 0x8000000000008009, 0x000000000000008a,
     0x0000000000000088, 0x0000000080008009, 0x000000008000000a,
     0x000000008000808b, 0x800000000000008b, 0x8000000000008089,
     0x8000000000008003, 0x8000000000008002, 0x8000000000000080,
     0x000000000000800a, 0x800000008000000a, 0x8000000080008081,
     0x8000000000008080, 0x0000000080000001, 0x8000000080008008]"

definition ROTL64 :: "u64 \<Rightarrow> nat \<Rightarrow> u64" where
  "ROTL64 x y = push_bit y x OR drop_bit (64 - y) x"

definition piln :: "nat list" where
  "piln = [10, 7, 11, 17, 18, 3, 5, 16, 8, 21, 24, 4,
           15, 23, 19, 13, 12, 2, 20, 14, 22, 9, 6, 1]"

definition rotc :: "nat list" where
  "rotc = [1, 3, 6, 10, 15, 21, 28, 36, 45, 55, 2, 14,
           27, 41, 56, 8, 25, 43, 62, 18, 39, 61, 20, 44]"

text \<open>The counted loops of \<open>keccakf\<close> are folds over their index ranges; the state
  \<open>st[25]\<close> is a list of 25 lanes, updated in place by \<open>st[i := v]\<close>.\<close>

definition keccak_theta :: "u64 list \<Rightarrow> u64 list" where
  "keccak_theta st =
     (let bc = map (\<lambda>i. st ! i XOR st ! (i + 5) XOR st ! (i + 10) XOR st ! (i + 15)
                          XOR st ! (i + 20)) [0..<5]
      in fold (\<lambda>i st.
            let t = bc ! ((i + 4) mod 5) XOR ROTL64 (bc ! ((i + 1) mod 5)) 1
            in fold (\<lambda>j st. st[j + i := st ! (j + i) XOR t]) [0, 5, 10, 15, 20] st)
          [0..<5] st)"

definition keccak_rho_pi :: "u64 list \<Rightarrow> u64 list" where
  "keccak_rho_pi st =
     fst (fold (\<lambda>i (st, t).
            let j = piln ! i;
                temp = st ! j
            in (st[j := ROTL64 t (rotc ! i)], temp))
          [0..<24] (st, st ! 1))"

definition keccak_chi :: "u64 list \<Rightarrow> u64 list" where
  "keccak_chi st =
     fold (\<lambda>j st.
        let tmp = map (\<lambda>i. st ! (j + i)) [0..<5]
        in fold (\<lambda>i st. st[j + i := tmp ! i XOR (NOT (tmp ! ((i + 1) mod 5))
                                                  AND tmp ! ((i + 2) mod 5))])
             [0..<5] st)
      [0, 5, 10, 15, 20] st"

definition keccak_iota :: "nat \<Rightarrow> u64 list \<Rightarrow> u64 list" where
  "keccak_iota round st = st[0 := st ! 0 XOR keccak_rc ! round]"

definition keccakf_round :: "nat \<Rightarrow> u64 list \<Rightarrow> u64 list" where
  "keccakf_round round st = keccak_iota round (keccak_chi (keccak_rho_pi (keccak_theta st)))"

definition keccakf :: "u64 list \<Rightarrow> u64 list" where
  "keccakf st = fold keccakf_round [0..<24] st"

text \<open>\<open>for (i = 0; i < rsiz / 8; i++) { memcpy(&v, in + i * 8, 8); st[i] ^= v; }\<close>\<close>

definition xor_rate_block :: "u64 list \<Rightarrow> u8 list \<Rightarrow> u64 list" where
  "xor_rate_block st blk =
     fold (\<lambda>i st. st[i := st ! i XOR load64 (read_bytes blk (i * 8) 8)]) [0..<17] st"

text \<open>The absorbing loop \<open>for (; inlen >= rsiz; inlen -= rsiz, in += rsiz)\<close>: it returns
  the state and what is left of the input (fewer than 136 bytes).\<close>

function keccak_absorb :: "u64 list \<Rightarrow> u8 list \<Rightarrow> u64 list \<times> u8 list" where
  "keccak_absorb st inp =
     (if 136 \<le> length inp
      then keccak_absorb (keccakf (xor_rate_block st inp)) (drop 136 inp)
      else (st, inp))"
  by pat_completeness auto
termination
  by (relation "measure (\<lambda>(st, inp). length inp)") auto

text \<open>The last block: \<open>memset(temp, 0, rsiz); memcpy(temp, in, inlen);
  temp[inlen] = 0x01; temp[rsiz - 1] |= 0x80;\<close>\<close>

definition keccak_last_block :: "u8 list \<Rightarrow> u8 list" where
  "keccak_last_block rest =
     (let temp = replicate 136 0;
          temp = write_bytes temp 0 rest;
          temp = temp[length rest := 0x01];
          temp = temp[135 := temp ! 135 OR 0x80]
      in temp)"

definition lanes_to_bytes :: "u64 list \<Rightarrow> u8 list" where
  "lanes_to_bytes st = concat (map store64 st)"

definition bytes_to_lanes :: "u8 list \<Rightarrow> u64 list" where
  "bytes_to_lanes bs = map (\<lambda>i. load64 (read_bytes bs (i * 8) 8)) [0..<length bs div 8]"

definition keccak1600 :: "u8 list \<Rightarrow> u8 list" where
  "keccak1600 inp =
     (let (st, rest) = keccak_absorb (replicate 25 0) inp;
          temp = keccak_last_block rest;
          st = xor_rate_block st temp;
          st = keccakf st
      in lanes_to_bytes st)"

section \<open>Software AES\<close>

definition aes_sbox :: "u8 list" where
  "aes_sbox =
    [0x63, 0x7c, 0x77, 0x7b, 0xf2, 0x6b, 0x6f, 0xc5, 0x30, 0x01, 0x67, 0x2b, 0xfe, 0xd7, 0xab, 0x76,
     0xca, 0x82, 0xc9, 0x7d, 0xfa, 0x59, 0x47, 0xf0, 0xad, 0xd4, 0xa2, 0xaf, 0x9c, 0xa4, 0x72, 0xc0,
     0xb7, 0xfd, 0x93, 0x26, 0x36, 0x3f, 0xf7, 0xcc, 0x34, 0xa5, 0xe5, 0xf1, 0x71, 0xd8, 0x31, 0x15,
     0x04, 0xc7, 0x23, 0xc3, 0x18, 0x96, 0x05, 0x9a, 0x07, 0x12, 0x80, 0xe2, 0xeb, 0x27, 0xb2, 0x75,
     0x09, 0x83, 0x2c, 0x1a, 0x1b, 0x6e, 0x5a, 0xa0, 0x52, 0x3b, 0xd6, 0xb3, 0x29, 0xe3, 0x2f, 0x84,
     0x53, 0xd1, 0x00, 0xed, 0x20, 0xfc, 0xb1, 0x5b, 0x6a, 0xcb, 0xbe, 0x39, 0x4a, 0x4c, 0x58, 0xcf,
     0xd0, 0xef, 0xaa, 0xfb, 0x43, 0x4d, 0x33, 0x85, 0x45, 0xf9, 0x02, 0x7f, 0x50, 0x3c, 0x9f, 0xa8,
     0x51, 0xa3, 0x40, 0x8f, 0x92, 0x9d, 0x38, 0xf5, 0xbc, 0xb6, 0xda, 0x21, 0x10, 0xff, 0xf3, 0xd2,
     0xcd, 0x0c, 0x13, 0xec, 0x5f, 0x97, 0x44, 0x17, 0xc4, 0xa7, 0x7e, 0x3d, 0x64, 0x5d, 0x19, 0x73,
     0x60, 0x81, 0x4f, 0xdc, 0x22, 0x2a, 0x90, 0x88, 0x46, 0xee, 0xb8, 0x14, 0xde, 0x5e, 0x0b, 0xdb,
     0xe0, 0x32, 0x3a, 0x0a, 0x49, 0x06, 0x24, 0x5c, 0xc2, 0xd3, 0xac, 0x62, 0x91, 0x95, 0xe4, 0x79,
     0xe7, 0xc8, 0x37, 0x6d, 0x8d, 0xd5, 0x4e, 0xa9, 0x6c, 0x56, 0xf4, 0xea, 0x65, 0x7a, 0xae, 0x08,
     0xba, 0x78, 0x25, 0x2e, 0x1c, 0xa6, 0xb4, 0xc6, 0xe8, 0xdd, 0x74, 0x1f, 0x4b, 0xbd, 0x8b, 0x8a,
     0x70, 0x3e, 0xb5, 0x66, 0x48, 0x03, 0xf6, 0x0e, 0x61, 0x35, 0x57, 0xb9, 0x86, 0xc1, 0x1d, 0x9e,
     0xe1, 0xf8, 0x98, 0x11, 0x69, 0xd9, 0x8e, 0x94, 0x9b, 0x1e, 0x87, 0xe9, 0xce, 0x55, 0x28, 0xdf,
     0x8c, 0xa1, 0x89, 0x0d, 0xbf, 0xe6, 0x42, 0x68, 0x41, 0x99, 0x2d, 0x0f, 0xb0, 0x54, 0xbb, 0x16]"

text \<open>\<open>(uint8_t)((x << 1) ^ (((x >> 7) & 1) * 0x1b))\<close>: the operand is promoted to
  \<open>int\<close> (32 bits), the result is cut back to eight bits.\<close>

definition xtime :: "u8 \<Rightarrow> u8" where
  "xtime x =
     (let xi = (ucast x :: u32)
      in ucast (push_bit 1 xi XOR ((drop_bit 7 xi AND 1) * 0x1b)))"

definition aes_single_round :: "u8 list \<Rightarrow> u8 list \<Rightarrow> u8 list" where
  "aes_single_round inp key =
     (let t = map (\<lambda>i. aes_sbox ! unat (inp ! i)) [0..<16];
          s = [t ! 0, t ! 5, t ! 10, t ! 15,
               t ! 4, t ! 9, t ! 14, t ! 3,
               t ! 8, t ! 13, t ! 2, t ! 7,
               t ! 12, t ! 1, t ! 6, t ! 11];
          s = fold (\<lambda>c s.
                let a0 = s ! (c * 4 + 0); a1 = s ! (c * 4 + 1);
                    a2 = s ! (c * 4 + 2); a3 = s ! (c * 4 + 3);
                    x0 = xtime a0; x1 = xtime a1; x2 = xtime a2; x3 = xtime a3;
                    s = s[c * 4 + 0 := x0 XOR x1 XOR a1 XOR a2 XOR a3];
                    s = s[c * 4 + 1 := a0 XOR x1 XOR x2 XOR a2 XOR a3];
                    s = s[c * 4 + 2 := a0 XOR a1 XOR x2 XOR x3 XOR a3];
                    s = s[c * 4 + 3 := x0 XOR a0 XOR a1 XOR a2 XOR x3]
                in s)
              [0..<4] s
      in map (\<lambda>i. s ! i XOR key ! i) [0..<16])"

definition rcon :: "u8 list" where
  "rcon = [0x01, 0x02, 0x04, 0x08, 0x10, 0x20, 0x40]"

text \<open>The \<open>while (n < 240)\<close> loop of \<open>aes256_expand_key\<close>, on the 240-byte array
  \<open>expanded\<close>, the position \<open>n\<close> and \<open>rcon_idx\<close>.\<close>

function expand_loop :: "u8 list \<Rightarrow> nat \<Rightarrow> nat \<Rightarrow> u8 list" where
  "expand_loop expanded n rcon_idx =
     (if n < 240
      then
        let temp = read_bytes expanded (n - 4) 4;
            (temp, rcon_idx) =
               (if n mod 32 = 0
                then ([aes_sbox ! unat (temp ! 1) XOR rcon ! rcon_idx,
                       aes_sbox ! unat (temp ! 2),
                       aes_sbox ! unat (temp ! 3),
                       aes_sbox ! unat (temp ! 0)], rcon_idx + 1)
                else if n mod 32 = 16
                then (map (\<lambda>i. aes_sbox ! unat (temp ! i)) [0..<4], rcon_idx)
                else (temp, rcon_idx));
            expanded = fold (\<lambda>i e. e[n + i := e ! (n + i - 32) XOR temp ! i]) [0..<4] expanded
        in expand_loop expanded (n + 4) rcon_idx
      else expanded)"
  by pat_completeness auto
termination
  by (relation "measure (\<lambda>(expanded, n, rcon_idx). 240 - n)") auto

text \<open>\<open>expanded\<close> is the caller's 240-byte array; its first 32 bytes are overwritten
  with the key, the rest by the loop.\<close>

definition aes256_expand_key :: "u8 list \<Rightarrow> u8 list \<Rightarrow> u8 list" where
  "aes256_expand_key key expanded =
     expand_loop (write_bytes expanded 0 (read_bytes key 0 32)) 32 0"

definition aes_pseudo_round :: "u8 list \<Rightarrow> u8 list \<Rightarrow> u8 list" where
  "aes_pseudo_round data expanded_key =
     fold (\<lambda>r data. aes_single_round data (read_bytes expanded_key (r * 16) 16)) [0..<10] data"

section \<open>CryptoNight v0\<close>

definition CN_MEMORY :: nat where "CN_MEMORY = 2097152"
definition CN_ITER :: nat where "CN_ITER = 524288"
definition AES_BLOCK_SIZE :: nat where "AES_BLOCK_SIZE = 16"
definition INIT_SIZE_BYTE :: nat where "INIT_SIZE_BYTE = 128"

definition xor_blocks :: "u8 list \<Rightarrow> u8 list \<Rightarrow> u8 list" where
  "xor_blocks a b = map (\<lambda>i. a ! i XOR b ! i) [0..<16]"

definition mul_128 :: "u64 \<Rightarrow> u64 \<Rightarrow> u64 \<times> u64" where
  "mul_128 a b =
     (let a_lo = (ucast (ucast a :: u32) :: u64);
          a_hi = drop_bit 32 a;
          b_lo = (ucast (ucast b :: u32) :: u64);
          b_hi = drop_bit 32 b;
          p0 = a_lo * b_lo;
          p1 = a_lo * b_hi;
          p2 = a_hi * b_lo;
          p3 = a_hi * b_hi;
          mid = p1 + drop_bit 32 p0;
          mid = mid + p2;
          p3 = (if mid < p2 then p3 + 0x100000000 else p3);
          lo = push_bit 32 mid OR (ucast (ucast p0 :: u32) :: u64);
          hi = p3 + drop_bit 32 mid
      in (hi, lo))"

text \<open>The working state of the main loop: the scratchpad \<open>hp_state\<close> and the registers
  \<open>a[2]\<close> and \<open>b[2]\<close>.\<close>

record main_state =
  hp_state :: "u8 list"
  reg_a :: "u64 \<times> u64"
  reg_b :: "u64 \<times> u64"

text \<open>\<open>((uint32_t)x) & 0x1FFFF0\<close>\<close>

definition scratch_index :: "u64 \<Rightarrow> nat" where
  "scratch_index x = unat ((ucast x :: u32) AND 0x1FFFF0)"

text \<open>The offset \<open>j1\<close>, the block \<open>c1\<close> after the AES round (whose key is the 16 bytes
  of \<open>a\<close> in memory) and the offset \<open>j2\<close> of one iteration.\<close>

definition step_j1 :: "main_state \<Rightarrow> nat" where
  "step_j1 s = scratch_index (fst (reg_a s))"

definition step_c1 :: "main_state \<Rightarrow> u8 list" where
  "step_c1 s =
     aes_single_round (read_bytes (hp_state s) (step_j1 s) 16)
       (store64 (fst (reg_a s)) @ store64 (snd (reg_a s)))"

definition step_j2 :: "main_state \<Rightarrow> nat" where
  "step_j2 s = scratch_index (load64 (read_bytes (step_c1 s) 0 8))"

definition main_iter :: "main_state \<Rightarrow> main_state" where
  "main_iter s =
     (let hp = hp_state s;
          (a0, a1) = reg_a s;
          (b0, b1) = reg_b s;
          j1 = step_j1 s;
          c1 = step_c1 s;
          c1_64_0 = load64 (read_bytes c1 0 8);
          c1_64_1 = load64 (read_bytes c1 8 8);
          hp = write_bytes hp j1 (store64 (c1_64_0 XOR b0));
          hp = write_bytes hp (j1 + 8) (store64 (c1_64_1 XOR b1));
          j2 = step_j2 s;
          c2_0 = load64 (read_bytes hp j2 8);
          c2_1 = load64 (read_bytes hp (j2 + 8) 8);
          (hi, lo) = mul_128 c1_64_0 c2_0;
          a0 = a0 + hi;
          a1 = a1 + lo;
          hp = write_bytes hp j2 (store64 a0);
          hp = write_bytes hp (j2 + 8) (store64 a1);
          a0 = a0 XOR c2_0;
          a1 = a1 XOR c2_1
      in \<lparr>hp_state = hp, reg_a = (a0, a1), reg_b = (c1_64_0, c1_64_1)\<rparr>)"

text \<open>\<open>for (uint32_t i = 0; i < CN_ITER / 2; i++)\<close>, started at \<open>i = 0\<close>.\<close>

function main_loop :: "u32 \<Rightarrow> main_state \<Rightarrow> main_state" where
  "main_loop i s =
     (if i < of_nat (CN_ITER div 2) then main_loop (i + 1) (main_iter s) else s)"
  by pat_completeness auto
termination
proof (relation "measure (\<lambda>(i, s). CN_ITER div 2 - unat i)")
  show "wf (measure (\<lambda>(i, s). CN_ITER div 2 - unat i))"
    by simp
next
  fix i :: u32 and s :: main_state
  assume "i < of_nat (CN_ITER div 2)"
  then have less: "unat i < 262144"
    by (simp add: CN_ITER_def word_less_nat_alt)
  then have "unat i + unat (1 :: u32) < 2 ^ LENGTH(32)"
    by simp
  then have "unat (i + 1) = unat i + unat (1 :: u32)"
    by (rule unat_add_lem [THEN iffD1])
  with less show "((i + 1, main_iter s), (i, s)) \<in> measure (\<lambda>(i, s). CN_ITER div 2 - unat i)"
    by (simp add: CN_ITER_def)
qed

text \<open>The offsets \<open>j = 0, 16, ..., 112\<close> of the eight AES blocks of the text buffer.\<close>

definition text_offsets :: "nat list" where
  "text_offsets = map (\<lambda>k. k * AES_BLOCK_SIZE) [0..<INIT_SIZE_BYTE div AES_BLOCK_SIZE]"

text \<open>Step 3, the scratchpad initialisation:
  \<open>for (uint32_t i = 0; i < CN_MEMORY; i += INIT_SIZE_BYTE)\<close>.\<close>

function init_loop :: "nat \<Rightarrow> u8 list \<Rightarrow> u8 list \<Rightarrow> u8 list \<Rightarrow> u8 list \<times> u8 list" where
  "init_loop i expanded_key text hp =
     (if i < CN_MEMORY
      then
        let text = fold (\<lambda>j text.
                      write_bytes text j
                        (aes_pseudo_round (read_bytes text j AES_BLOCK_SIZE) expanded_key))
                    text_offsets text;
            hp = write_bytes hp i (read_bytes text 0 INIT_SIZE_BYTE)
        in init_loop (i + INIT_SIZE_BYTE) expanded_key text hp
      else (text, hp))"
  by pat_completeness auto
termination
  by (relation "measure (\<lambda>(i, expanded_key, text, hp). CN_MEMORY - i)")
     (auto simp add: INIT_SIZE_BYTE_def)

text \<open>Step 5, folding the scratchpad back into the text buffer.\<close>

function reduce_loop :: "nat \<Rightarrow> u8 list \<Rightarrow> u8 list \<Rightarrow> u8 list \<Rightarrow> u8 list" where
  "reduce_loop i expanded_key text hp =
     (if i < CN_MEMORY
      then
        let text = fold (\<lambda>j text.
                      let text = write_bytes text j
                                   (xor_blocks (read_bytes text j AES_BLOCK_SIZE)
                                      (read_bytes hp (i + j) AES_BLOCK_SIZE));
                          text = write_bytes text j
                                   (aes_pseudo_round (read_bytes text j AES_BLOCK_SIZE)
                                      expanded_key)
                      in text)
                    text_offsets text
        in reduce_loop (i + INIT_SIZE_BYTE) expanded_key text hp
      else text)"
  by pat_completeness auto
termination
  by (relation "measure (\<lambda>(i, expanded_key, text, hp). CN_MEMORY - i)")
     (auto simp add: INIT_SIZE_BYTE_def)

text \<open>The four final hash functions are \<open>extern\<close>: they are linked from other sources and
  are parameters here. Each one maps the 200-byte state to the bytes it writes to the
  output.\<close>

record finalizers =
  blake256_hash :: "u8 list \<Rightarrow> u8 list"
  groestl :: "u8 list \<Rightarrow> u8 list"
  jh_hash :: "u8 list \<Rightarrow> u8 list"
  skein_hash :: "u8 list \<Rightarrow> u8 list"

text \<open>The body of \<open>cn_hash\<close> once the scratchpad is allocated, up to the bytes that
  the selected final hash function writes to the output. \<open>hp\<close> is the block that
  \<open>malloc(CN_MEMORY)\<close> returned, with whatever it contains. The local array
  \<open>expanded_key\<close> starts as zeros; every byte of it is written before it is read.\<close>

definition cn_digest :: "u8 list \<Rightarrow> finalizers \<Rightarrow> u8 list \<Rightarrow> u8 list" where
  "cn_digest hp fin input =
     (let state = keccak1600 input;
          expanded_key = aes256_expand_key state (replicate 240 0);
          text = read_bytes state 64 INIT_SIZE_BYTE;
          (text, hp) = init_loop 0 expanded_key text hp;
          a = (load64 (read_bytes state 0 8) XOR load64 (read_bytes state 32 8),
               load64 (read_bytes state 8 8) XOR load64 (read_bytes state 40 8));
          b = (load64 (read_bytes state 16 8) XOR load64 (read_bytes state 48 8),
               load64 (read_bytes state 24 8) XOR load64 (read_bytes state 56 8));
          s = main_loop 0 \<lparr>hp_state = hp, reg_a = a, reg_b = b\<rparr>;
          hp = hp_state s;
          expanded_key = aes256_expand_key (drop 32 state) expanded_key;
          text = read_bytes state 64 INIT_SIZE_BYTE;
          text = reduce_loop 0 expanded_key text hp;
          state = write_bytes state 64 (read_bytes text 0 INIT_SIZE_BYTE);
          state = lanes_to_bytes (keccakf (bytes_to_lanes state));
          sel = state ! 0 AND 3
      in if sel = 0 then blake256_hash fin state
         else if sel = 1 then groestl fin state
         else if sel = 2 then jh_hash fin state
         else skein_hash fin state)"

text \<open>\<open>cn_hash\<close> returns \<open>void\<close>: what the caller sees of a call is the output buffer
  after it. \<open>malloc_result\<close> is what \<open>malloc(CN_MEMORY)\<close> gave: \<open>None\<close> for the null
  pointer (\<open>if (!hp_state) return;\<close>), \<open>Some hp\<close> for a block with the contents \<open>hp\<close>.\<close>

definition cn_hash :: "u8 list option \<Rightarrow> finalizers \<Rightarrow> u8 list \<Rightarrow> u8 list \<Rightarrow> u8 list" where
  "cn_hash malloc_result fin input output =
     (case malloc_result of
        None \<Rightarrow> output
      | Some hp \<Rightarrow> write_bytes output 0 (cn_digest hp fin input))"

text \<open>The caller's memory around a call of \<open>try_hash\<close>: the blob (\<open>blob_len\<close> bytes at
  \<open>blob\<close>, read through a pointer to \<open>const\<close>) and the output buffer at \<open>out_hash\<close>, two
  separate buffers.\<close>

record caller_mem =
  blob_buf :: "u8 list"
  out_buf :: "u8 list"

definition set_nonce :: "u8 list \<Rightarrow> u32 \<Rightarrow> u8 list" where
  "set_nonce input nonce =
     input[39 := ucast (nonce AND 0xFF),
           40 := ucast (drop_bit 8 nonce AND 0xFF),
           41 := ucast (drop_bit 16 nonce AND 0xFF),
           42 := ucast (drop_bit 24 nonce AND 0xFF)]"

text \<open>The bytes \<open>input[0 .. blob_len)\<close> that \<open>try_hash\<close> passes to \<open>cn_hash\<close>, for
  \<open>blob_len \<le> 256\<close>. The local array \<open>input[256]\<close> starts as zeros; the bytes past
  \<open>blob_len\<close> are not passed on.\<close>

definition try_hash_input :: "u8 list \<Rightarrow> u32 \<Rightarrow> u8 list" where
  "try_hash_input blob nonce =
     (let blob_len = length blob;
          input = write_bytes (replicate 256 0) 0 blob;
          input = (if blob_len \<ge> 43 then set_nonce input nonce else input)
      in read_bytes input 0 blob_len)"

definition try_hash ::
  "u8 list option \<Rightarrow> finalizers \<Rightarrow> caller_mem \<Rightarrow> u32 \<Rightarrow> u64 \<Rightarrow> int \<times> caller_mem" where
  "try_hash malloc_result fin mem nonce target =
     (let blob = blob_buf mem;
          blob_len = length blob
      in if blob_len > 256 then (0, mem)
         else
           let out_hash = cn_hash malloc_result fin (try_hash_input blob nonce) (out_buf mem);
               hash_val = load64 (read_bytes out_hash 24 8)
           in (if hash_val < target then 1 else 0, mem\<lparr>out_buf := out_hash\<rparr>))"

text \<open>A stand-in for the four external hash functions, to instantiate statements at
  concrete inputs: each one writes 32 zero bytes.\<close>

definition zero_finalizers :: finalizers where
  "zero_finalizers =
     \<lparr>blake256_hash = (\<lambda>s. replicate 32 0), groestl = (\<lambda>s. replicate 32 0),
      jh_hash = (\<lambda>s. replicate 32 0), skein_hash = (\<lambda>s. replicate 32 0)\<rparr>"

section \<open>The specification's wording\<close>

text \<open>The definitions of this section follow the words of the specification, not the
  source. The theorems below compare them with the definitions above.\<close>

subsection \<open>Keccak-1600 padding and absorption (specification 4.1)\<close>

text \<open>The padding appended to a message of \<open>n\<close> bytes: the first byte past the message
  is \<open>0x01\<close>, the last byte of the 136-byte rate block is OR'd with \<open>0x80\<close>, the bytes
  in between are zero; the two coincide when the message leaves one byte of the block.\<close>

definition spec_keccak_pad :: "nat \<Rightarrow> u8 list" where
  "spec_keccak_pad n =
     (let r = n mod 136
      in if r = 135 then [0x01 OR 0x80] else [0x01] @ replicate (134 - r) 0 @ [0x80])"

definition spec_rate_blocks :: "u8 list \<Rightarrow> u8 list list" where
  "spec_rate_blocks bs = map (\<lambda>k. take 136 (drop (136 * k) bs)) [0..<length bs div 136]"

text \<open>The value of a byte string read as a little-endian number, and the \<open>n\<close>
  little-endian bytes of a number.\<close>

fun spec_le_value :: "u8 list \<Rightarrow> nat" where
  "spec_le_value [] = 0"
| "spec_le_value (b # bs) = unat b + 256 * spec_le_value bs"

fun spec_le_bytes :: "nat \<Rightarrow> nat \<Rightarrow> u8 list" where
  "spec_le_bytes 0 v = []"
| "spec_le_bytes (Suc n) v = word_of_nat (v mod 256) # spec_le_bytes n (v div 256)"

text \<open>A lane is an unsigned 64-bit integer, read from eight bytes in little-endian
  order.\<close>

definition spec_lane :: "u8 list \<Rightarrow> u64" where
  "spec_lane bs = word_of_nat (spec_le_value (take 8 bs))"

text \<open>Absorbing one rate block: of the 25 lanes of the state, the first 17 (the rate,
  136 bytes) are XOR'd with the lanes of the block; the other 8 (the capacity) are not
  touched.\<close>

definition spec_absorb_block :: "u64 list \<Rightarrow> u8 list \<Rightarrow> u64 list" where
  "spec_absorb_block st blk =
     map (\<lambda>i. if i < 17 then st ! i XOR spec_lane (drop (8 * i) blk) else st ! i) [0..<25]"

text \<open>The full state as 200 bytes: byte \<open>i\<close> is byte \<open>i mod 8\<close>, least significant
  first, of lane \<open>i div 8\<close>.\<close>

definition spec_state_bytes :: "u64 list \<Rightarrow> u8 list" where
  "spec_state_bytes st =
     map (\<lambda>i. word_of_nat (unat (st ! (i div 8)) div 256 ^ (i mod 8) mod 256)) [0..<200]"

text \<open>The sponge: from the all-zero state, each rate block of the padded message is
  absorbed and followed by one permutation; the full 200-byte state is the result.\<close>

definition spec_keccak1600 :: "u8 list \<Rightarrow> u8 list" where
  "spec_keccak1600 msg =
     spec_state_bytes
       (foldl (\<lambda>st blk. keccakf (spec_absorb_block st blk)) (replicate 25 0)
          (spec_rate_blocks (msg @ spec_keccak_pad (length msg))))"

subsection \<open>The AES round (specification 4.2)\<close>

text \<open>Multiplication in GF(2^8) modulo \<open>x^8 + x^4 + x^3 + x + 1\<close> (\<open>0x11b\<close>): the
  product of the two polynomials over GF(2), then its remainder.\<close>

definition gf_poly_mul :: "u8 \<Rightarrow> u8 \<Rightarrow> 16 word" where
  "gf_poly_mul a b =
     fold (\<lambda>i acc. if bit a i then acc XOR push_bit i (ucast b) else acc) [0..<8] 0"

definition gf_poly_mod :: "16 word \<Rightarrow> 16 word" where
  "gf_poly_mod p =
     fold (\<lambda>i p. if bit p i then p XOR push_bit (i - 8) 0x11b else p) (rev [8..<16]) p"

definition gf_mul :: "u8 \<Rightarrow> u8 \<Rightarrow> u8" where
  "gf_mul a b = ucast (gf_poly_mod (gf_poly_mul a b))"

definition spec_sub_bytes :: "u8 list \<Rightarrow> u8 list" where
  "spec_sub_bytes st = map (\<lambda>x. aes_sbox ! unat x) st"

text \<open>Column-major layout, index = row + 4 * col: row \<open>r\<close> is rotated left by \<open>r\<close>
  positions, so the byte of row \<open>r\<close>, column \<open>c\<close> comes from column \<open>(c + r) mod 4\<close>.\<close>

definition spec_shift_rows :: "u8 list \<Rightarrow> u8 list" where
  "spec_shift_rows st =
     map (\<lambda>i. let r = i mod 4; c = i div 4 in st ! (r + 4 * ((c + r) mod 4))) [0..<16]"

definition mds_matrix :: "u8 list list" where
  "mds_matrix = [[2, 3, 1, 1], [1, 2, 3, 1], [1, 1, 2, 3], [3, 1, 1, 2]]"

definition spec_mix_columns :: "u8 list \<Rightarrow> u8 list" where
  "spec_mix_columns st =
     map (\<lambda>i. let r = i mod 4; c = i div 4
              in gf_mul (mds_matrix ! r ! 0) (st ! (0 + 4 * c))
                 XOR gf_mul (mds_matrix ! r ! 1) (st ! (1 + 4 * c))
                 XOR gf_mul (mds_matrix ! r ! 2) (st ! (2 + 4 * c))
                 XOR gf_mul (mds_matrix ! r ! 3) (st ! (3 + 4 * c)))
       [0..<16]"

definition spec_add_round_key :: "u8 list \<Rightarrow> u8 list \<Rightarrow> u8 list" where
  "spec_add_round_key st key = map2 (XOR) st key"

subsection \<open>One iteration of the main loop (specification 4.3.2)\<close>

text \<open>\<open>(low 32 bits of x) AND 0x1FFFF0\<close>, on natural numbers.\<close>

definition spec_address :: "u64 \<Rightarrow> nat" where
  "spec_address x = (unat x mod 2 ^ 32) AND 0x1FFFF0"

text \<open>The full 128-bit product: \<open>hi\<close> its upper, \<open>lo\<close> its lower 64 bits.\<close>

definition spec_mul_full :: "u64 \<Rightarrow> u64 \<Rightarrow> u64 \<times> u64" where
  "spec_mul_full x y =
     (word_of_nat ((unat x * unat y) div 2 ^ 64), word_of_nat ((unat x * unat y) mod 2 ^ 64))"

text \<open>A register is a pair of unsigned 64-bit integers; as 16 bytes it is the two
  little-endian encodings one after the other.\<close>

definition spec_reg_bytes :: "u64 \<times> u64 \<Rightarrow> u8 list" where
  "spec_reg_bytes r = store64 (fst r) @ store64 (snd r)"

definition spec_bytes_reg :: "u8 list \<Rightarrow> u64 \<times> u64" where
  "spec_bytes_reg bs = (load64 (take 8 bs), load64 (take 8 (drop 8 bs)))"

text \<open>Sub-step A: load the block at \<open>j1\<close>, apply one AES round with the 16 bytes of
  \<open>a\<close> as round key, write the result XOR \<open>b\<close> back to \<open>P[j1 .. j1+16)\<close>. It returns
  the scratchpad and the block \<open>c1\<close>.\<close>

definition spec_sub_step_A :: "u8 list \<Rightarrow> u64 \<times> u64 \<Rightarrow> u64 \<times> u64 \<Rightarrow> u8 list \<times> u8 list" where
  "spec_sub_step_A P a b =
     (let j1 = spec_address (fst a);
          c1 = take 16 (drop j1 P);
          c1 = aes_single_round c1 (spec_reg_bytes a);
          P = take j1 P @ map2 (XOR) c1 (spec_reg_bytes b) @ drop (j1 + 16) P
      in (P, c1))"

text \<open>Sub-step B: the full product of \<open>c1[0]\<close> and \<open>c2_0\<close>, \<open>a[0] += hi\<close>,
  \<open>a[1] += lo\<close>, the new \<open>a\<close> written to \<open>P[j2 .. j2+16)\<close>, then \<open>a[0] ^= c2_0\<close>,
  \<open>a[1] ^= c2_1\<close>, and \<open>b\<close> becomes \<open>c1\<close>.\<close>

definition spec_sub_step_B :: "u8 list \<Rightarrow> u8 list \<Rightarrow> u64 \<times> u64 \<Rightarrow> main_state" where
  "spec_sub_step_B P c1 a =
     (let c1r = spec_bytes_reg c1;
          j2 = spec_address (fst c1r);
          c2 = spec_bytes_reg (take 16 (drop j2 P));
          (hi, lo) = spec_mul_full (fst c1r) (fst c2);
          a = (fst a + hi, snd a + lo);
          P = take j2 P @ spec_reg_bytes a @ drop (j2 + 16) P;
          a = (fst a XOR fst c2, snd a XOR snd c2)
      in \<lparr>hp_state = P, reg_a = a, reg_b = c1r\<rparr>)"

definition spec_iteration :: "main_state \<Rightarrow> main_state" where
  "spec_iteration s =
     (let (P, c1) = spec_sub_step_A (hp_state s) (reg_a s) (reg_b s)
      in spec_sub_step_B P c1 (reg_a s))"

subsection \<open>The nonce of the mining entry point (specification 6)\<close>

text \<open>Byte \<open>k\<close> of the little-endian encoding of a 32-bit value.\<close>

definition spec_le_byte :: "u32 \<Rightarrow> nat \<Rightarrow> u8" where
  "spec_le_byte n k = word_of_nat (unat n div 256 ^ k mod 256)"

text \<open>The blob with the nonce in little-endian order at byte offset 39, if the blob has
  at least 43 bytes; the blob itself otherwise.\<close>

definition spec_nonce_blob :: "u8 list \<Rightarrow> u32 \<Rightarrow> u8 list" where
  "spec_nonce_blob blob nonce =
     (if 43 \<le> length blob
      then blob[39 := spec_le_byte nonce 0, 40 := spec_le_byte nonce 1,
                41 := spec_le_byte nonce 2, 42 := spec_le_byte nonce 3]
      else blob)"

subsection \<open>The host-visible entry and the error taxonomy (specification 6 and 7)\<close>

datatype cn_error = AllocationFailure | UnsupportedVariant | InvalidInputLength

text \<open>Modelled from the spec: \<open>cn_slow_hash\<close> is declared in \<open>cryptonight.h\<close> and defined
  in none of the source files. By the specification, a variant other than 0 is rejected
  at entry with \<open>UnsupportedVariant\<close> and no side effects; for variant 0, \<open>prehashed\<close> and
  \<open>height\<close> are ignored and the call is the hash of specification 4.5, which fails with
  \<open>AllocationFailure\<close> and leaves the output untouched when the scratchpad cannot be
  acquired. The result is the error, if any, and the output buffer after the call.\<close>

definition cn_slow_hash ::
  "u8 list option \<Rightarrow> finalizers \<Rightarrow> u8 list \<Rightarrow> u8 list \<Rightarrow> int \<Rightarrow> int \<Rightarrow> u64
     \<Rightarrow> cn_error option \<times> u8 list" where
  "cn_slow_hash malloc_result fin data hash variant prehashed height =
     (if variant \<noteq> 0 then (Some UnsupportedVariant, hash)
      else if malloc_result = None then (Some AllocationFailure, hash)
      else (None, cn_hash malloc_result fin data hash))"

section \<open>Recursion equations\<close>

text \<open>The loops are unfolded by hand, one step at a time.\<close>

declare keccak_absorb.simps [simp del]
declare expand_loop.simps [simp del]
declare main_loop.simps [simp del]
declare init_loop.simps [simp del]
declare reduce_loop.simps [simp del]

section \<open>The 64 x 64 to 128 bit multiplication\<close>

lemma unat_low32: "unat (ucast (ucast (a::u64) :: u32) :: u64) = unat a mod 2 ^ 32"
proof -
  have "unat (ucast (ucast a :: u32) :: u64) = take_bit LENGTH(64) (unat (ucast a :: u32))"
    by (rule unsigned_ucast_eq)
  also have "unat (ucast a :: u32) = take_bit LENGTH(32) (unat a)"
    by (rule unsigned_ucast_eq)
  finally show ?thesis
    by (simp add: take_bit_eq_mod)
qed

lemma unat_high32: "unat (drop_bit 32 (a::u64)) = unat a div 2 ^ 32"
proof -
  have "unat (drop_bit 32 a) = drop_bit 32 (unat a)"
    by (rule unat_drop_bit_eq)
  then show ?thesis
    by (simp only: drop_bit_eq_div)
qed

lemma half_prod_bound:
  fixes x y :: nat
  assumes "x < 2 ^ 32" "y < 2 ^ 32"
  shows "x * y \<le> 18446744065119617025"
proof -
  have "x \<le> 4294967295" "y \<le> 4294967295" using assms by simp_all
  then have "x * y \<le> 4294967295 * 4294967295" by (rule mult_le_mono)
  then show ?thesis by simp
qed

lemma unat_half_mult:
  fixes x y :: u64
  assumes "unat x < 2 ^ 32" "unat y < 2 ^ 32"
  shows "unat (x * y) = unat x * unat y"
proof -
  have "unat x * unat y \<le> 18446744065119617025"
    using assms by (rule half_prod_bound)
  then have "unat x * unat y < 2 ^ LENGTH(64)" by simp
  then show ?thesis by (rule unat_mult_lem [THEN iffD1])
qed


lemma ucast_low32_take_bit: "(ucast (ucast (a::u64) :: u32) :: u64) = take_bit 32 a"
  by (rule bit_word_eqI) (auto simp add: bit_simps)

lemma unat_push_bit32: "unat (push_bit 32 (m::u64)) = (unat m mod 2 ^ 32) * 2 ^ 32"
proof -
  have "unat (push_bit 32 m) = take_bit LENGTH(64) (push_bit 32 (unat m))"
    by (rule unsigned_push_bit_eq)
  also have "\<dots> = (unat m * 2 ^ 32) mod (2 ^ 32 * 2 ^ 32)"
    by (simp add: take_bit_eq_mod push_bit_eq_mult)
  also have "\<dots> = (unat m mod 2 ^ 32) * 2 ^ 32"
    by (rule mult_mod_left [symmetric])
  finally show ?thesis .
qed

lemma unat_lo_combine:
  "unat (push_bit 32 (m::u64) OR (ucast (ucast (p::u64) :: u32) :: u64))
     = (unat m mod 2 ^ 32) * 2 ^ 32 + unat p mod 2 ^ 32"
proof -
  let ?x = "push_bit 32 m :: u64"
  let ?y = "(ucast (ucast p :: u32) :: u64)"
  have disj: "?x AND ?y = 0"
    unfolding ucast_low32_take_bit
    by (rule bit_word_eqI) (auto simp add: bit_simps)
  have ux: "unat ?x = (unat m mod 2 ^ 32) * 2 ^ 32" by (rule unat_push_bit32)
  have uy: "unat ?y = unat p mod 2 ^ 32" by (rule unat_low32)
  have "unat m mod 2 ^ 32 \<le> 4294967295" "unat p mod 2 ^ 32 \<le> 4294967295"
    by simp_all
  then have "unat ?x + unat ?y < 2 ^ LENGTH(64)"
    unfolding ux uy by simp
  then have "unat (?x + ?y) = unat ?x + unat ?y"
    by (rule unat_add_lem [THEN iffD1])
  moreover have "?x OR ?y = ?x + ?y"
    using disj by (rule disjunctive_add_eq_or [symmetric])
  ultimately show ?thesis
    by (simp only: ux uy)
qed

lemma mul_128_product_aux:
  assumes "mul_128 a b = (hi, lo)"
  shows "unat hi * 2 ^ 64 + unat lo = unat a * unat b"
proof -
  define a_lo where "a_lo = (ucast (ucast a :: u32) :: u64)"
  define a_hi where "a_hi = drop_bit 32 a"
  define b_lo where "b_lo = (ucast (ucast b :: u32) :: u64)"
  define b_hi where "b_hi = drop_bit 32 b"
  define p0 where "p0 = a_lo * b_lo"
  define p1 where "p1 = a_lo * b_hi"
  define p2 where "p2 = a_hi * b_lo"
  define p3 where "p3 = a_hi * b_hi"
  define mid0 where "mid0 = p1 + drop_bit 32 p0"
  define mid where "mid = mid0 + p2"
  define p3' where "p3' = (if mid < p2 then p3 + 0x100000000 else p3)"
  have "mul_128 a b = (p3' + drop_bit 32 mid, push_bit 32 mid OR (ucast (ucast p0 :: u32) :: u64))"
    by (simp only: mul_128_def Let_def a_lo_def a_hi_def b_lo_def b_hi_def p0_def p1_def
        p2_def p3_def mid0_def mid_def p3'_def)
  with assms have lo: "lo = push_bit 32 mid OR (ucast (ucast p0 :: u32) :: u64)"
    and hi: "hi = p3' + drop_bit 32 mid"
    by simp_all
  define A B where "A = unat a" and "B = unat b"
  define al ah bl bh where "al = A mod 2 ^ 32" and "ah = A div 2 ^ 32"
    and "bl = B mod 2 ^ 32" and "bh = B div 2 ^ 32"
  have A64: "A < 2 ^ 64" and B64: "B < 2 ^ 64"
    using unsigned_less [of a] unsigned_less [of b] by (simp_all add: A_def B_def)
  have al32: "al < 2 ^ 32" and bl32: "bl < 2 ^ 32"
    by (simp_all add: al_def bl_def)
  have ah32: "ah < 2 ^ 32" and bh32: "bh < 2 ^ 32"
    using A64 B64 by (simp_all add: ah_def bh_def less_mult_imp_div_less)
  have u_al: "unat a_lo = al" and u_bl: "unat b_lo = bl"
    by (simp_all only: a_lo_def b_lo_def unat_low32 al_def bl_def A_def B_def)
  have u_ah: "unat a_hi = ah" and u_bh: "unat b_hi = bh"
    by (simp_all only: a_hi_def b_hi_def unat_high32 ah_def bh_def A_def B_def)
  have u_p0: "unat p0 = al * bl"
    unfolding p0_def using al32 bl32 by (simp add: unat_half_mult u_al u_bl)
  have u_p1: "unat p1 = al * bh"
    unfolding p1_def using al32 bh32 by (simp add: unat_half_mult u_al u_bh)
  have u_p2: "unat p2 = ah * bl"
    unfolding p2_def using ah32 bl32 by (simp add: unat_half_mult u_ah u_bl)
  have u_p3: "unat p3 = ah * bh"
    unfolding p3_def using ah32 bh32 by (simp add: unat_half_mult u_ah u_bh)
  have b_p0: "al * bl \<le> 18446744065119617025" using al32 bl32 by (rule half_prod_bound)
  have b_p1: "al * bh \<le> 18446744065119617025" using al32 bh32 by (rule half_prod_bound)
  have b_p2: "ah * bl \<le> 18446744065119617025" using ah32 bl32 by (rule half_prod_bound)
  have b_p3: "ah * bh \<le> 18446744065119617025" using ah32 bh32 by (rule half_prod_bound)
  define q where "q = (al * bl) div 2 ^ 32"
  have b_q: "q \<le> 4294967294"
    using b_p0 unfolding q_def by simp
  have u_q: "unat (drop_bit 32 p0) = q"
    by (simp only: unat_high32 u_p0 q_def)
  have "unat p1 + unat (drop_bit 32 p0) < 2 ^ LENGTH(64)"
    using b_p1 b_q by (simp add: u_p1 u_q)
  then have "unat (p1 + drop_bit 32 p0) = unat p1 + unat (drop_bit 32 p0)"
    by (rule unat_add_lem [THEN iffD1])
  then have u_mid0: "unat mid0 = al * bh + q"
    by (simp only: mid0_def u_p1 u_q)
  define M where "M = al * bh + q + ah * bl"
  define c :: nat where "c = (if 2 ^ 64 \<le> M then 1 else 0)"
  have b_M: "M \<le> 36893488134534201344"
    using b_p1 b_q b_p2 unfolding M_def by simp
  have u_mid: "unat mid = M mod 2 ^ 64"
    unfolding mid_def M_def by (simp add: unat_word_ariths u_mid0 u_p2)
  have M_split: "M = c * 2 ^ 64 + unat mid"
  proof (cases "2 ^ 64 \<le> M")
    case True
    then have "M mod 2 ^ 64 = M - 2 ^ 64"
      using b_M by (simp add: mod_if)
    with True show ?thesis by (simp add: c_def u_mid)
  next
    case False
    then show ?thesis by (simp add: c_def u_mid)
  qed
  have carry: "mid < p2 \<longleftrightarrow> 2 ^ 64 \<le> M"
  proof (cases "2 ^ 64 \<le> M")
    case True
    have "al * bh + q < 2 ^ 64" using b_p1 b_q by simp
    then have "M - 2 ^ 64 < ah * bl" using True unfolding M_def by simp
    moreover have "unat mid = M - 2 ^ 64"
      using True b_M by (simp add: u_mid mod_if)
    ultimately show ?thesis
      using True by (simp add: word_less_nat_alt u_p2)
  next
    case False
    then have "unat mid = M" by (simp add: u_mid)
    then have "\<not> unat mid < unat p2" by (simp add: u_p2 M_def)
    then show ?thesis using False by (simp add: word_less_nat_alt)
  qed
  have b_mh: "unat mid div 2 ^ 32 \<le> 4294967295"
  proof -
    have "unat mid < 2 ^ 64" using unsigned_less [of mid] by simp
    then have "unat mid div 2 ^ 32 < 2 ^ 32" by (simp add: less_mult_imp_div_less)
    then show ?thesis by simp
  qed
  have M_split': "M = unat mid + (c * 4294967296) * 4294967296"
    using M_split by simp
  have c_mh: "c * 2 ^ 32 + unat mid div 2 ^ 32 = M div 2 ^ 32"
  proof -
    have "M div 4294967296 = unat mid div 4294967296 + c * 4294967296"
      using M_split' by (simp only: div_mult_self3)
    then show ?thesis by simp
  qed
  have b_Mh: "M div 2 ^ 32 \<le> 8589934590"
    using b_M by simp
  have u_p3': "unat p3' = ah * bh + c * 2 ^ 32"
  proof (cases "2 ^ 64 \<le> M")
    case True
    have "unat p3 + unat (0x100000000 :: u64) < 2 ^ LENGTH(64)"
      using b_p3 by (simp add: u_p3)
    then have "unat (p3 + 0x100000000) = unat p3 + unat (0x100000000 :: u64)"
      by (rule unat_add_lem [THEN iffD1])
    with True show ?thesis by (simp add: p3'_def carry c_def u_p3)
  next
    case False
    then show ?thesis by (simp add: p3'_def carry c_def u_p3)
  qed
  have "unat p3' + unat (drop_bit 32 mid) < 2 ^ LENGTH(64)"
    using b_p3 b_Mh c_mh by (simp add: u_p3' unat_high32)
  then have "unat (p3' + drop_bit 32 mid) = unat p3' + unat (drop_bit 32 mid)"
    by (rule unat_add_lem [THEN iffD1])
  then have u_hi: "unat hi = ah * bh + M div 2 ^ 32"
    using c_mh by (simp add: hi u_p3' unat_high32)
  have u_lo: "unat lo = (M mod 2 ^ 32) * 2 ^ 32 + (al * bl) mod 2 ^ 32"
  proof -
    have "unat mid mod 2 ^ 32 = M mod 2 ^ 32"
    proof -
      have "M mod 4294967296 = unat mid mod 4294967296"
        using M_split' by (simp only: mod_mult_self1)
      then show ?thesis by simp
    qed
    then show ?thesis
      by (simp only: lo unat_lo_combine u_p0)
  qed
  have expand: "A * B = ah * bh * 2 ^ 64 + (al * bh + ah * bl) * 2 ^ 32 + al * bl"
  proof -
    have "A = ah * 2 ^ 32 + al" "B = bh * 2 ^ 32 + bl"
      by (simp_all add: al_def ah_def bl_def bh_def)
    then show ?thesis by (simp add: algebra_simps)
  qed
  have p0_split: "al * bl = q * 2 ^ 32 + (al * bl) mod 2 ^ 32"
    by (simp add: q_def)
  have M_parts: "M = (M div 2 ^ 32) * 2 ^ 32 + M mod 2 ^ 32"
    by simp
  have "A * B = ah * bh * 2 ^ 64 + M * 2 ^ 32 + (al * bl) mod 2 ^ 32"
  proof -
    have "(al * bh + ah * bl) * 2 ^ 32 + al * bl
            = (al * bh + ah * bl) * 2 ^ 32 + (q * 2 ^ 32 + (al * bl) mod 2 ^ 32)"
      using p0_split by simp
    also have "\<dots> = M * 2 ^ 32 + (al * bl) mod 2 ^ 32"
      by (simp add: M_def algebra_simps)
    finally show ?thesis using expand by simp
  qed
  also have "M * 2 ^ 32 = (M div 2 ^ 32) * 2 ^ 64 + (M mod 2 ^ 32) * 2 ^ 32"
  proof -
    have "M * 2 ^ 32 = ((M div 2 ^ 32) * 2 ^ 32 + M mod 2 ^ 32) * 2 ^ 32"
      by simp
    also have "\<dots> = (M div 2 ^ 32) * (2 ^ 32 * 2 ^ 32) + (M mod 2 ^ 32) * 2 ^ 32"
      by (simp only: add_mult_distrib mult.assoc)
    finally show ?thesis by simp
  qed
  finally have "A * B = (ah * bh + M div 2 ^ 32) * 2 ^ 64
                  + ((M mod 2 ^ 32) * 2 ^ 32 + (al * bl) mod 2 ^ 32)"
    by (simp add: add_mult_distrib)
  then show ?thesis
    by (simp only: u_hi u_lo A_def B_def)
qed

text \<open>
  Claim C6. For all unsigned 64-bit \<open>a\<close> and \<open>b\<close>, the pair \<open>(hi, lo)\<close> that \<open>mul_128\<close>
  returns satisfies \<open>hi * 2^64 + lo = a * b\<close>, the exact product of the two values as
  natural numbers: the wrap-around of the partial sums and the carry into the high half
  are handled correctly.
\<close>

theorem mul_128_full_product:
  "unat (fst (mul_128 a b)) * 2 ^ 64 + unat (snd (mul_128 a b)) = unat a * unat b"
  by (rule mul_128_product_aux) simp

section \<open>Loads and stores\<close>

lemma length_store64: "length (store64 w) = 8"
  by (simp add: store64_def)

lemma length_write_bytes:
  "off + length bs \<le> length m \<Longrightarrow> length (write_bytes m off bs) = length m"
  by (simp add: write_bytes_def)

lemma load64_take: "8 \<le> n \<Longrightarrow> load64 (take n bs) = load64 bs"
  by (simp add: load64_def)

lemma store64_xor: "store64 (x XOR y) = map2 (XOR) (store64 x) (store64 y)"
  by (simp add: store64_def unsigned_xor_eq flip: drop_bit_eq_div)

lemma disj8:
  "((0::nat) = k \<and> Q 0) \<or> (1 = k \<and> Q 1) \<or> (2 = k \<and> Q 2) \<or> (3 = k \<and> Q 3) \<or>
   (4 = k \<and> Q 4) \<or> (5 = k \<and> Q 5) \<or> (6 = k \<and> Q 6) \<or> (7 = k \<and> Q 7)
   \<longleftrightarrow> k < 8 \<and> Q k"
proof -
  have "k < 8 \<longleftrightarrow> k = 0 \<or> k = 1 \<or> k = 2 \<or> k = 3 \<or> k = 4 \<or> k = 5 \<or> k = 6 \<or> k = 7"
    by arith
  then show ?thesis by auto
qed

text \<open>Bit \<open>m\<close> of a loaded word is bit \<open>m mod 8\<close> of byte \<open>m div 8\<close>: least significant
  byte first.\<close>

lemma bit_load64:
  "bit (load64 bs) m \<longleftrightarrow> m < 64 \<and> bit (bs ! (m div 8)) (m mod 8)"
proof -
  have *: "bit (push_bit (8 * j) (ucast (b :: u8) :: u64)) m \<longleftrightarrow> j = m div 8 \<and> bit b (m mod 8)"
    if "j < 8" for j b
  proof
    assume "bit (push_bit (8 * j) (ucast b :: u64)) m"
    then have a: "8 * j \<le> m" and b: "bit b (m - 8 * j)"
      by (simp_all add: bit_simps)
    from b have "m - 8 * j < 8"
      using bit_imp_le_length [of b "m - 8 * j"] by simp
    with a have "j = m div 8" by presburger
    moreover with a have "m - 8 * j = m mod 8" by presburger
    ultimately show "j = m div 8 \<and> bit b (m mod 8)" using b by simp
  next
    assume "j = m div 8 \<and> bit b (m mod 8)"
    moreover then have "8 * j \<le> m" "m - 8 * j = m mod 8" "m < 64"
      using that by presburger+
    ultimately show "bit (push_bit (8 * j) (ucast b :: u64)) m"
      by (simp add: bit_simps)
  qed
  have "bit (load64 bs) m \<longleftrightarrow>
          (0 = m div 8 \<and> bit (bs ! 0) (m mod 8)) \<or> (1 = m div 8 \<and> bit (bs ! 1) (m mod 8)) \<or>
          (2 = m div 8 \<and> bit (bs ! 2) (m mod 8)) \<or> (3 = m div 8 \<and> bit (bs ! 3) (m mod 8)) \<or>
          (4 = m div 8 \<and> bit (bs ! 4) (m mod 8)) \<or> (5 = m div 8 \<and> bit (bs ! 5) (m mod 8)) \<or>
          (6 = m div 8 \<and> bit (bs ! 6) (m mod 8)) \<or> (7 = m div 8 \<and> bit (bs ! 7) (m mod 8))"
    unfolding load64_def bit_or_iff
    using * [of 0 "bs ! 0"] * [of 1 "bs ! 1"] * [of 2 "bs ! 2"] * [of 3 "bs ! 3"]
      * [of 4 "bs ! 4"] * [of 5 "bs ! 5"] * [of 6 "bs ! 6"] * [of 7 "bs ! 7"]
    by simp
  also have "\<dots> \<longleftrightarrow> m div 8 < 8 \<and> bit (bs ! (m div 8)) (m mod 8)"
    by (rule disj8)
  also have "m div 8 < 8 \<longleftrightarrow> m < 64"
    by presburger
  finally show ?thesis .
qed

lemma less_8_cases: "(k :: nat) < 8 \<Longrightarrow> k \<in> {0, 1, 2, 3, 4, 5, 6, 7}"
  by auto

lemma bit_store64_nth:
  assumes "k < 8" "r < 8"
  shows "bit (store64 w ! k) r \<longleftrightarrow> bit w (8 * k + r)"
proof -
  from assms(1) have "k \<in> {0, 1, 2, 3, 4, 5, 6, 7}"
    by (rule less_8_cases)
  then show ?thesis
    using assms(2) by (elim insertE) (simp_all add: store64_def bit_simps add.commute)
qed

lemma load64_store64: "load64 (store64 w) = w"
proof (rule bit_word_eqI)
  fix n
  assume n: "n < LENGTH(64)"
  then have "n div 8 < 8" "n mod 8 < 8" by simp_all
  then have "bit (store64 w ! (n div 8)) (n mod 8) \<longleftrightarrow> bit w (8 * (n div 8) + n mod 8)"
    by (rule bit_store64_nth)
  then show "bit (load64 (store64 w)) n \<longleftrightarrow> bit w n"
    using n by (simp add: bit_load64)
qed

lemma store64_load64:
  assumes "length bs = 8"
  shows "store64 (load64 bs) = bs"
proof -
  have byte: "ucast (drop_bit (8 * k) (load64 bs)) = bs ! k" if "k < 8" for k
  proof (rule bit_word_eqI)
    fix n
    assume "n < LENGTH(8)"
    then have "n < 8" by simp
    with that have "(8 * k + n) div 8 = k" "(8 * k + n) mod 8 = n" "8 * k + n < 64"
      by simp_all
    then show "bit (ucast (drop_bit (8 * k) (load64 bs)) :: u8) n \<longleftrightarrow> bit (bs ! k) n"
      using \<open>n < 8\<close> by (simp add: bit_simps bit_load64)
  qed
  have "length (store64 (load64 bs)) = length bs"
    using assms by (simp add: store64_def)
  moreover have "store64 (load64 bs) ! i = bs ! i" if "i < 8" for i
  proof -
    from that have "i \<in> {0, 1, 2, 3, 4, 5, 6, 7}"
      by (rule less_8_cases)
    then show ?thesis
      using byte [of 0] byte [of 1] byte [of 2] byte [of 3] byte [of 4] byte [of 5] byte [of 6]
        byte [of 7]
      by (elim insertE) (simp_all add: store64_def)
  qed
  ultimately show ?thesis
    using assms by (simp add: list_eq_iff_nth_eq)
qed

section \<open>Scratchpad offsets\<close>

lemma scratch_index_le: "scratch_index x \<le> 2097136"
proof -
  have "(ucast x :: u32) AND 0x1FFFF0 \<le> 0x1FFFF0"
    by (rule word_and_le1)
  then have "unat ((ucast x :: u32) AND 0x1FFFF0) \<le> unat (0x1FFFF0 :: u32)"
    by (simp only: word_le_nat_alt)
  then show ?thesis
    by (simp add: scratch_index_def)
qed

lemma scratch_index_aligned: "16 dvd scratch_index x"
proof -
  let ?w = "(ucast x :: u32) AND 0x1FFFF0"
  have "take_bit 4 ?w = 0"
    by (rule bit_word_eqI) (auto simp add: bit_simps bit_numeral_iff)
  moreover have "unat (take_bit 4 ?w) = take_bit 4 (unat ?w)"
    by (rule unsigned_take_bit_eq)
  ultimately have "take_bit 4 (unat ?w) = 0"
    by simp
  then have "unat ?w mod 2 ^ 4 = 0"
    by (simp only: take_bit_eq_mod)
  then show ?thesis
    by (simp add: scratch_index_def mod_eq_0_iff_dvd)
qed

lemma step_j1_in_range: "step_j1 s + 16 \<le> CN_MEMORY"
  using scratch_index_le [of "fst (reg_a s)"] by (simp add: step_j1_def CN_MEMORY_def)

lemma step_j2_in_range: "step_j2 s + 16 \<le> CN_MEMORY"
  using scratch_index_le [of "load64 (read_bytes (step_c1 s) 0 8)"]
  by (simp add: step_j2_def CN_MEMORY_def)

lemma length_main_iter:
  assumes "length (hp_state s) = CN_MEMORY"
  shows "length (hp_state (main_iter s)) = CN_MEMORY"
  using assms step_j1_in_range [of s] step_j2_in_range [of s]
  by (simp add: main_iter_def Let_def split_beta length_write_bytes length_store64)

lemma length_main_iter_funpow:
  "length (hp_state s) = CN_MEMORY \<Longrightarrow> length (hp_state ((main_iter ^^ n) s)) = CN_MEMORY"
  by (induction n) (simp_all add: length_main_iter)

text \<open>
  Claim C5. Started on a scratchpad of \<open>CN_MEMORY = 2097152\<close> bytes, the state reached
  after any number \<open>n\<close> of iterations of the main loop (so in each of the 262144
  iterations) has both offsets \<open>j1\<close> and \<open>j2\<close> of the next iteration in
  \<open>[0, 2097152)\<close> and multiples of 16, and the 16 bytes at each offset end within the
  scratchpad, whose length the iterations keep.
\<close>

theorem main_loop_offsets_in_scratchpad:
  assumes "length (hp_state s0) = CN_MEMORY"
  shows "step_j1 ((main_iter ^^ n) s0) < 2097152 \<and> 16 dvd step_j1 ((main_iter ^^ n) s0)
       \<and> step_j1 ((main_iter ^^ n) s0) + 16 \<le> length (hp_state ((main_iter ^^ n) s0))
       \<and> step_j2 ((main_iter ^^ n) s0) < 2097152 \<and> 16 dvd step_j2 ((main_iter ^^ n) s0)
       \<and> step_j2 ((main_iter ^^ n) s0) + 16 \<le> length (hp_state ((main_iter ^^ n) s0))
       \<and> length (hp_state ((main_iter ^^ n) s0)) = 2097152"
proof -
  let ?s = "(main_iter ^^ n) s0"
  have len: "length (hp_state ?s) = CN_MEMORY"
    using assms by (rule length_main_iter_funpow)
  have "step_j1 ?s + 16 \<le> CN_MEMORY" "step_j2 ?s + 16 \<le> CN_MEMORY"
    by (rule step_j1_in_range, rule step_j2_in_range)
  moreover have "16 dvd step_j1 ?s" "16 dvd step_j2 ?s"
    by (simp_all add: step_j1_def step_j2_def scratch_index_aligned)
  ultimately show ?thesis
    using len by (simp add: CN_MEMORY_def)
qed

theorem main_loop_offsets_in_scratchpad_witness:
  "length (hp_state \<lparr>hp_state = replicate 2097152 0, reg_a = (1, 2), reg_b = (3, 4)\<rparr>) = CN_MEMORY
   \<and> step_j1 ((main_iter ^^ 5) \<lparr>hp_state = replicate 2097152 0, reg_a = (1, 2), reg_b = (3, 4)\<rparr>)
       < 2097152
   \<and> 16 dvd step_j2 ((main_iter ^^ 5) \<lparr>hp_state = replicate 2097152 0, reg_a = (1, 2), reg_b = (3, 4)\<rparr>)"
proof -
  let ?s0 = "\<lparr>hp_state = replicate 2097152 0, reg_a = (1, 2), reg_b = (3, 4)\<rparr>"
  have h: "length (hp_state ?s0) = CN_MEMORY"
    by (simp add: CN_MEMORY_def)
  from main_loop_offsets_in_scratchpad [OF h, of 5] h show ?thesis
    by blast
qed

section \<open>The main loop against the specification\<close>

lemma scratch_index_spec: "scratch_index x = spec_address x"
proof -
  have "unat ((ucast x :: u32) AND 0x1FFFF0) = unat (ucast x :: u32) AND unat (0x1FFFF0 :: u32)"
    by (rule unsigned_and_eq)
  moreover have "unat (ucast x :: u32) = take_bit LENGTH(32) (unat x)"
    by (rule unsigned_ucast_eq)
  ultimately show ?thesis
    by (simp add: scratch_index_def spec_address_def take_bit_eq_mod)
qed

lemma mul_128_spec: "mul_128 x y = spec_mul_full x y"
proof -
  obtain hi lo where hl: "mul_128 x y = (hi, lo)"
    by (cases "mul_128 x y")
  then have prod: "unat hi * 2 ^ 64 + unat lo = unat x * unat y"
    by (rule mul_128_product_aux)
  have lo64: "unat lo < 2 ^ 64"
    using unsigned_less [of lo] by simp
  have "(unat x * unat y) div 2 ^ 64 = unat hi"
    using lo64 by (simp only: prod [symmetric]) simp
  moreover have "(unat x * unat y) mod 2 ^ 64 = unat lo"
    using lo64 by (simp only: prod [symmetric]) simp
  ultimately show ?thesis
    by (simp add: spec_mul_full_def hl)
qed

lemma length_aes_single_round: "length (aes_single_round inp key) = 16"
  by (simp add: aes_single_round_def Let_def)

lemma write_bytes_twice:
  assumes "j + 16 \<le> length m" "length x = 8" "length y = 8"
  shows "write_bytes (write_bytes m j x) (j + 8) y = take j m @ (x @ y) @ drop (j + 16) m"
  using assms by (simp add: write_bytes_def add.commute)

lemma xor_block_halves:
  assumes "length c = 16"
  shows "store64 (load64 (read_bytes c 0 8) XOR b0) @ store64 (load64 (read_bytes c 8 8) XOR b1)
           = map2 (XOR) c (store64 b0 @ store64 b1)"
proof -
  have l1: "length (take 8 c) = 8" and l2: "length (take 8 (drop 8 c)) = 8"
    using assms by simp_all
  have "map2 (XOR) c (store64 b0 @ store64 b1)
          = map2 (XOR) (take 8 c @ drop 8 c) (store64 b0 @ store64 b1)"
    by simp
  also have "\<dots> = map2 (XOR) (take 8 c) (store64 b0) @ map2 (XOR) (drop 8 c) (store64 b1)"
    using l1 by (simp only: zip_append length_store64 map_append)
  finally show ?thesis
    using assms l1 l2
    by (simp add: read_bytes_def store64_xor store64_load64)
qed

lemma load64_second_half: "load64 (read_bytes m (j + 8) 8) = load64 (take 8 (drop 8 (take 16 (drop j m))))"
  by (simp add: read_bytes_def load64_take drop_take add.commute)

lemma main_iter_spec:
  assumes len: "length (hp_state s) = CN_MEMORY"
  shows "main_iter s = spec_iteration s"
proof -
  obtain a0 a1 where a: "reg_a s = (a0, a1)" by (cases "reg_a s")
  obtain b0 b1 where b: "reg_b s = (b0, b1)" by (cases "reg_b s")
  define c1 where "c1 = step_c1 s"
  define j1 where "j1 = step_j1 s"
  define j2 where "j2 = step_j2 s"
  define c10 where "c10 = load64 (read_bytes c1 0 8)"
  define c11 where "c11 = load64 (read_bytes c1 8 8)"
  define P1 where "P1 = take j1 (hp_state s) @ map2 (XOR) c1 (store64 b0 @ store64 b1)
                          @ drop (j1 + 16) (hp_state s)"
  have lc1: "length c1 = 16"
    by (simp add: c1_def step_c1_def length_aes_single_round)
  have j1r: "j1 + 16 \<le> length (hp_state s)"
    using step_j1_in_range [of s] len by (simp add: j1_def)
  have j2r: "j2 + 16 \<le> CN_MEMORY"
    using step_j2_in_range [of s] by (simp add: j2_def)
  have lP1: "length P1 = CN_MEMORY"
    using j1r len lc1 by (simp add: P1_def length_store64)
  have w1: "write_bytes (write_bytes (hp_state s) j1 (store64 (c10 XOR b0))) (j1 + 8)
              (store64 (c11 XOR b1)) = P1"
    using j1r lc1
    by (simp only: write_bytes_twice length_store64 c10_def c11_def xor_block_halves P1_def)
  have j1s: "spec_address a0 = j1"
    by (simp add: j1_def step_j1_def a scratch_index_spec)
  have c1s: "aes_single_round (take 16 (drop j1 (hp_state s))) (store64 a0 @ store64 a1) = c1"
    by (simp add: c1_def step_c1_def a read_bytes_def j1_def)
  have A: "spec_sub_step_A (hp_state s) (reg_a s) (reg_b s) = (P1, c1)"
    by (simp add: spec_sub_step_A_def Let_def a b j1s spec_reg_bytes_def c1s P1_def)
  have c1r: "spec_bytes_reg c1 = (c10, c11)"
    using lc1 by (simp add: spec_bytes_reg_def c10_def c11_def read_bytes_def)
  have j2s: "spec_address c10 = j2"
    by (simp add: j2_def step_j2_def c10_def c1_def scratch_index_spec)
  define c20 where "c20 = load64 (read_bytes P1 j2 8)"
  define c21 where "c21 = load64 (read_bytes P1 (j2 + 8) 8)"
  have c2r: "spec_bytes_reg (take 16 (drop j2 P1)) = (c20, c21)"
    by (simp add: spec_bytes_reg_def c20_def c21_def load64_second_half)
       (simp add: read_bytes_def)
  obtain hi lo where hl: "mul_128 c10 c20 = (hi, lo)"
    by (cases "mul_128 c10 c20")
  then have hls: "spec_mul_full c10 c20 = (hi, lo)"
    by (simp add: mul_128_spec)
  have w2: "write_bytes (write_bytes P1 j2 (store64 (a0 + hi))) (j2 + 8) (store64 (a1 + lo))
              = take j2 P1 @ (store64 (a0 + hi) @ store64 (a1 + lo)) @ drop (j2 + 16) P1"
    using j2r lP1 by (simp only: write_bytes_twice length_store64)
  have B: "spec_sub_step_B P1 c1 (a0, a1)
             = \<lparr>hp_state = take j2 P1 @ (store64 (a0 + hi) @ store64 (a1 + lo)) @ drop (j2 + 16) P1,
                reg_a = (a0 + hi XOR c20, a1 + lo XOR c21), reg_b = (c10, c11)\<rparr>"
    by (simp add: spec_sub_step_B_def Let_def c1r j2s c2r hls spec_reg_bytes_def)
  have M: "main_iter s
             = \<lparr>hp_state = write_bytes (write_bytes P1 j2 (store64 (a0 + hi))) (j2 + 8)
                             (store64 (a1 + lo)),
                reg_a = (a0 + hi XOR c20, a1 + lo XOR c21), reg_b = (c10, c11)\<rparr>"
    using w1
    by (simp add: main_iter_def Let_def a b c1_def [symmetric] j1_def [symmetric]
        j2_def [symmetric] c10_def [symmetric] c11_def [symmetric] c20_def [symmetric]
        c21_def [symmetric] hl)
  from A have A': "spec_sub_step_A (hp_state s) (a0, a1) (reg_b s) = (P1, c1)"
    by (simp only: a)
  show ?thesis
    by (simp only: M w2 spec_iteration_def A' B a Let_def prod.case)
qed

lemma main_loop_funpow_aux:
  "unat i \<le> 262144 \<Longrightarrow> main_loop i s = (main_iter ^^ (262144 - unat i)) s"
proof (induction i s rule: main_loop.induct)
  case (1 i s)
  show ?case
  proof (cases "i < of_nat (CN_ITER div 2)")
    case True
    then have less: "unat i < 262144"
      by (simp add: CN_ITER_def word_less_nat_alt)
    then have "unat i + unat (1 :: u32) < 2 ^ LENGTH(32)"
      by simp
    then have "unat (i + 1) = unat i + unat (1 :: u32)"
      by (rule unat_add_lem [THEN iffD1])
    then have suc: "unat (i + 1) = Suc (unat i)"
      by simp
    with less have "unat (i + 1) \<le> 262144"
      by simp
    with True have "main_loop (i + 1) (main_iter s)
                      = (main_iter ^^ (262144 - unat (i + 1))) (main_iter s)"
      by (rule "1.IH")
    moreover have "main_loop i s = main_loop (i + 1) (main_iter s)"
      using True by (subst main_loop.simps) simp
    moreover have "262144 - unat i = Suc (262144 - unat (i + 1))"
      using less suc by simp
    ultimately show ?thesis
      by (simp only: funpow_Suc_right o_apply)
  next
    case False
    then have "\<not> unat i < 262144"
      by (simp add: CN_ITER_def word_less_nat_alt)
    with "1.prems" have "262144 - unat i = 0"
      by simp
    moreover have "main_loop i s = s"
      using False by (subst main_loop.simps) simp
    ultimately show ?thesis
      by simp
  qed
qed

lemma main_loop_funpow: "main_loop 0 s = (main_iter ^^ 262144) s"
  using main_loop_funpow_aux [of 0 s] by simp

lemma main_iter_funpow_spec:
  "length (hp_state s) = CN_MEMORY \<Longrightarrow> (main_iter ^^ n) s = (spec_iteration ^^ n) s"
proof (induction n)
  case 0
  show ?case by simp
next
  case (Suc n)
  have "length (hp_state ((main_iter ^^ n) s)) = CN_MEMORY"
    using Suc.prems by (rule length_main_iter_funpow)
  then have "main_iter ((main_iter ^^ n) s) = spec_iteration ((main_iter ^^ n) s)"
    by (rule main_iter_spec)
  with Suc show ?case
    by simp
qed

text \<open>
  Claim C2. On a scratchpad of 2097152 bytes, the main loop of the source (the \<open>for\<close>
  loop over the 32-bit counter \<open>i\<close> from 0 while \<open>i < CN_ITER / 2\<close>) computes exactly
  262144 iterations, no more and no fewer, and each iteration is the pair the
  specification describes: sub-step A (load the block at \<open>j1\<close>, one AES round keyed by
  the 16 bytes of \<open>a\<close>, write the result XOR \<open>b\<close> to \<open>P[j1 .. j1+16)\<close>) followed by
  sub-step B (full 128-bit product of \<open>c1[0]\<close> and \<open>c2_0\<close>, \<open>a[0] += hi\<close> and
  \<open>a[1] += lo\<close> with wrap-around, the new \<open>a\<close> written to \<open>P[j2 .. j2+16)\<close>, then
  \<open>a[0] ^= c2_0\<close>, \<open>a[1] ^= c2_1\<close>, and \<open>b\<close> set to \<open>c1\<close>).
\<close>

theorem main_loop_runs_262144_spec_iterations:
  assumes "length (hp_state s) = CN_MEMORY"
  shows "main_loop 0 s = (spec_iteration ^^ 262144) s"
  using assms by (simp only: main_loop_funpow main_iter_funpow_spec)

theorem main_loop_runs_262144_spec_iterations_witness:
  "length (hp_state \<lparr>hp_state = replicate 2097152 0, reg_a = (1, 2), reg_b = (3, 4)\<rparr>) = CN_MEMORY
   \<and> main_loop 0 \<lparr>hp_state = replicate 2097152 0, reg_a = (1, 2), reg_b = (3, 4)\<rparr>
       = (spec_iteration ^^ 262144) \<lparr>hp_state = replicate 2097152 0, reg_a = (1, 2), reg_b = (3, 4)\<rparr>"
proof -
  let ?s0 = "\<lparr>hp_state = replicate 2097152 0, reg_a = (1, 2), reg_b = (3, 4)\<rparr>"
  have h: "length (hp_state ?s0) = CN_MEMORY"
    by (simp add: CN_MEMORY_def)
  from main_loop_runs_262144_spec_iterations [OF h] h show ?thesis
    by (rule conjI [rotated])
qed

section \<open>The AES round against the specification\<close>

lemma xtime_eq: "xtime x = push_bit 1 x XOR (if bit x 7 then 0x1b else 0)"
proof -
  have d: "drop_bit 7 (ucast x :: u32) AND 1 = (if bit x 7 then 1 else 0)"
  proof (rule bit_word_eqI)
    fix n
    show "bit (drop_bit 7 (ucast x :: u32) AND 1) n \<longleftrightarrow> bit (if bit x 7 then 1 else 0 :: u32) n"
      by (cases "n = 0") (auto simp add: bit_simps)
  qed
  have p: "(ucast (push_bit 1 (ucast x :: u32)) :: u8) = push_bit 1 x"
    by (rule bit_word_eqI) (auto simp add: bit_simps simp del: push_bit_Suc One_nat_def)
  have "xtime x = ucast (push_bit 1 (ucast x :: u32)) XOR ucast ((drop_bit 7 (ucast x :: u32) AND 1) * 0x1b)"
    by (simp only: xtime_def Let_def unsigned_xor_eq)
  then show ?thesis
    by (simp only: p d) simp
qed

lemma poly_mul_1: "gf_poly_mul 1 b = ucast b"
  by (simp add: gf_poly_mul_def upt_rec [of _ 8])

lemma poly_mul_2: "gf_poly_mul 2 b = push_bit 1 (ucast b)"
  by (simp add: gf_poly_mul_def upt_rec [of _ 8])

lemma poly_mul_3: "gf_poly_mul 3 b = ucast b XOR push_bit 1 (ucast b)"
  by (simp add: gf_poly_mul_def upt_rec [of _ 8])

lemma gf_poly_mod_small:
  assumes "\<And>i. 9 \<le> i \<Longrightarrow> \<not> bit p i"
  shows "gf_poly_mod p = (if bit p 8 then p XOR 0x11b else p)"
  using assms [of 9] assms [of 10] assms [of 11] assms [of 12] assms [of 13] assms [of 14]
    assms [of 15]
  by (simp add: gf_poly_mod_def upt_rec [of _ 16])

lemma ucast_0x11b: "(ucast (0x11b :: 16 word) :: u8) = 0x1b"
  by simp

lemma ucast_ucast_u8: "(ucast (ucast (x :: u8) :: 16 word) :: u8) = x"
  by (rule bit_word_eqI) (auto simp add: bit_simps)

lemma ucast_push_bit_u8: "(ucast (push_bit 1 (ucast (x :: u8)) :: 16 word) :: u8) = push_bit 1 x"
  by (rule bit_word_eqI) (auto simp add: bit_simps simp del: push_bit_Suc One_nat_def)

lemma not_bit_u8: "8 \<le> i \<Longrightarrow> \<not> bit (x :: u8) i"
  using bit_imp_le_length [of x i] by auto

lemma gf_mul_1: "gf_mul 1 x = x"
proof -
  have "\<not> bit (ucast x :: 16 word) i" if "9 \<le> i" for i
    using that by (simp add: bit_simps not_bit_u8)
  then have "gf_poly_mod (ucast x) = (if bit (ucast x :: 16 word) 8 then ucast x XOR 0x11b else ucast x)"
    by (rule gf_poly_mod_small)
  moreover have "\<not> bit (ucast x :: 16 word) 8"
    by (simp add: bit_simps not_bit_u8)
  ultimately show ?thesis
    by (simp add: gf_mul_def poly_mul_1 ucast_ucast_u8)
qed

lemma gf_mul_2: "gf_mul 2 x = xtime x"
proof -
  let ?p = "push_bit 1 (ucast x) :: 16 word"
  have "\<not> bit ?p i" if "9 \<le> i" for i
    using that by (simp add: bit_simps not_bit_u8 del: push_bit_Suc One_nat_def)
  then have "gf_poly_mod ?p = (if bit ?p 8 then ?p XOR 0x11b else ?p)"
    by (rule gf_poly_mod_small)
  moreover have "bit ?p 8 \<longleftrightarrow> bit x 7"
    by (simp add: bit_simps del: push_bit_Suc One_nat_def)
  ultimately have "gf_poly_mod ?p = (if bit x 7 then ?p XOR 0x11b else ?p)"
    by simp
  then have "gf_mul 2 x = (if bit x 7 then ucast ?p XOR ucast (0x11b :: 16 word) else ucast ?p)"
    by (simp only: gf_mul_def poly_mul_2 unsigned_xor_eq if_distrib [of ucast])
  then show ?thesis
    by (simp only: ucast_push_bit_u8 xtime_eq ucast_0x11b) simp
qed

lemma gf_mul_3: "gf_mul 3 x = xtime x XOR x"
proof -
  let ?q = "push_bit 1 (ucast x) :: 16 word"
  let ?p = "ucast x XOR ?q :: 16 word"
  have "\<not> bit ?p i" if "9 \<le> i" for i
    using that by (simp add: bit_simps not_bit_u8 del: push_bit_Suc One_nat_def)
  then have "gf_poly_mod ?p = (if bit ?p 8 then ?p XOR 0x11b else ?p)"
    by (rule gf_poly_mod_small)
  moreover have "bit ?p 8 \<longleftrightarrow> bit x 7"
    by (simp add: bit_simps not_bit_u8 del: push_bit_Suc One_nat_def)
  ultimately have "gf_poly_mod ?p = (if bit x 7 then ?p XOR 0x11b else ?p)"
    by simp
  then have "gf_mul 3 x = (if bit x 7 then (ucast (ucast x :: 16 word) XOR ucast ?q) XOR ucast (0x11b :: 16 word)
                           else ucast (ucast x :: 16 word) XOR ucast ?q)"
    by (simp only: gf_mul_def poly_mul_3 unsigned_xor_eq if_distrib [of ucast])
  then show ?thesis
    by (simp only: ucast_push_bit_u8 ucast_ucast_u8 xtime_eq ucast_0x11b) (simp add: ac_simps)
qed

lemma list16:
  assumes "length bs = 16"
  obtains b0 b1 b2 b3 b4 b5 b6 b7 b8 b9 b10 b11 b12 b13 b14 b15 where
    "bs = [b0, b1, b2, b3, b4, b5, b6, b7, b8, b9, b10, b11, b12, b13, b14, b15]"
proof -
  from assms obtain b0 b1 b2 b3 r1 where 1: "bs = b0 # b1 # b2 # b3 # r1" "length r1 = 12"
    by (auto simp add: numeral_eq_Suc length_Suc_conv)
  then obtain b4 b5 b6 b7 r2 where 2: "r1 = b4 # b5 # b6 # b7 # r2" "length r2 = 8"
    by (auto simp add: numeral_eq_Suc length_Suc_conv)
  then obtain b8 b9 b10 b11 r3 where 3: "r2 = b8 # b9 # b10 # b11 # r3" "length r3 = 4"
    by (auto simp add: numeral_eq_Suc length_Suc_conv)
  then obtain b12 b13 b14 b15 where 4: "r3 = [b12, b13, b14, b15]"
    by (auto simp add: numeral_eq_Suc length_Suc_conv)
  from 1 2 3 4 that show thesis by simp
qed

lemma shift_rows_explicit:
  "spec_shift_rows [t0, t1, t2, t3, t4, t5, t6, t7, t8, t9, t10, t11, t12, t13, t14, t15]
     = [t0, t5, t10, t15, t4, t9, t14, t3, t8, t13, t2, t7, t12, t1, t6, t11]"
  by (simp add: spec_shift_rows_def upt_rec [of _ 16] Let_def)

lemma mix_columns_explicit:
  "spec_mix_columns [s0, s1, s2, s3, s4, s5, s6, s7, s8, s9, s10, s11, s12, s13, s14, s15]
     = [xtime s0 XOR xtime s1 XOR s1 XOR s2 XOR s3,
        s0 XOR xtime s1 XOR xtime s2 XOR s2 XOR s3,
        s0 XOR s1 XOR xtime s2 XOR xtime s3 XOR s3,
        xtime s0 XOR s0 XOR s1 XOR s2 XOR xtime s3,
        xtime s4 XOR xtime s5 XOR s5 XOR s6 XOR s7,
        s4 XOR xtime s5 XOR xtime s6 XOR s6 XOR s7,
        s4 XOR s5 XOR xtime s6 XOR xtime s7 XOR s7,
        xtime s4 XOR s4 XOR s5 XOR s6 XOR xtime s7,
        xtime s8 XOR xtime s9 XOR s9 XOR s10 XOR s11,
        s8 XOR xtime s9 XOR xtime s10 XOR s10 XOR s11,
        s8 XOR s9 XOR xtime s10 XOR xtime s11 XOR s11,
        xtime s8 XOR s8 XOR s9 XOR s10 XOR xtime s11,
        xtime s12 XOR xtime s13 XOR s13 XOR s14 XOR s15,
        s12 XOR xtime s13 XOR xtime s14 XOR s14 XOR s15,
        s12 XOR s13 XOR xtime s14 XOR xtime s15 XOR s15,
        xtime s12 XOR s12 XOR s13 XOR s14 XOR xtime s15]"
  by (simp add: spec_mix_columns_def upt_rec [of _ 16] Let_def mds_matrix_def
      gf_mul_1 gf_mul_2 gf_mul_3 xor.assoc)

lemma aes_single_round_explicit:
  "aes_single_round [x0, x1, x2, x3, x4, x5, x6, x7, x8, x9, x10, x11, x12, x13, x14, x15]
       [k0, k1, k2, k3, k4, k5, k6, k7, k8, k9, k10, k11, k12, k13, k14, k15]
     = map2 (XOR)
        (spec_mix_columns
          [aes_sbox ! unat x0, aes_sbox ! unat x5, aes_sbox ! unat x10, aes_sbox ! unat x15,
           aes_sbox ! unat x4, aes_sbox ! unat x9, aes_sbox ! unat x14, aes_sbox ! unat x3,
           aes_sbox ! unat x8, aes_sbox ! unat x13, aes_sbox ! unat x2, aes_sbox ! unat x7,
           aes_sbox ! unat x12, aes_sbox ! unat x1, aes_sbox ! unat x6, aes_sbox ! unat x11])
        [k0, k1, k2, k3, k4, k5, k6, k7, k8, k9, k10, k11, k12, k13, k14, k15]"
  unfolding mix_columns_explicit
  by (simp add: aes_single_round_def upt_rec [of _ 16] upt_rec [of _ 4] Let_def xor.assoc)

text \<open>
  Claim C4. For every 16-byte block and every 16-byte key, \<open>aes_single_round\<close> is the
  composition of SubBytes, then ShiftRows in the column-major layout (index
  = row + 4 * col, row \<open>r\<close> rotated left by \<open>r\<close> positions), then MixColumns with the
  matrix \<open>[[2,3,1,1],[1,2,3,1],[1,1,2,3],[3,1,1,2]]\<close> over GF(2^8) modulo
  \<open>x^8 + x^4 + x^3 + x + 1\<close>, then XOR with the key the caller supplies.
\<close>

theorem aes_single_round_is_spec_round:
  assumes "length inp = 16" and "length key = 16"
  shows "aes_single_round inp key
           = spec_add_round_key (spec_mix_columns (spec_shift_rows (spec_sub_bytes inp))) key"
proof -
  from assms(1) obtain x0 x1 x2 x3 x4 x5 x6 x7 x8 x9 x10 x11 x12 x13 x14 x15 where
    inp: "inp = [x0, x1, x2, x3, x4, x5, x6, x7, x8, x9, x10, x11, x12, x13, x14, x15]"
    by (rule list16)
  from assms(2) obtain k0 k1 k2 k3 k4 k5 k6 k7 k8 k9 k10 k11 k12 k13 k14 k15 where
    key: "key = [k0, k1, k2, k3, k4, k5, k6, k7, k8, k9, k10, k11, k12, k13, k14, k15]"
    by (rule list16)
  have "spec_shift_rows (spec_sub_bytes inp)
          = [aes_sbox ! unat x0, aes_sbox ! unat x5, aes_sbox ! unat x10, aes_sbox ! unat x15,
             aes_sbox ! unat x4, aes_sbox ! unat x9, aes_sbox ! unat x14, aes_sbox ! unat x3,
             aes_sbox ! unat x8, aes_sbox ! unat x13, aes_sbox ! unat x2, aes_sbox ! unat x7,
             aes_sbox ! unat x12, aes_sbox ! unat x1, aes_sbox ! unat x6, aes_sbox ! unat x11]"
    unfolding inp spec_sub_bytes_def list.map by (rule shift_rows_explicit)
  then show ?thesis
    by (simp only: spec_add_round_key_def) (simp only: inp key aes_single_round_explicit)
qed

theorem aes_single_round_is_spec_round_witness:
  "length (replicate 16 (0x53 :: u8)) = 16 \<and> length (replicate 16 (0xca :: u8)) = 16
   \<and> aes_single_round (replicate 16 0x53) (replicate 16 0xca)
       = spec_add_round_key
           (spec_mix_columns (spec_shift_rows (spec_sub_bytes (replicate 16 0x53))))
           (replicate 16 0xca)"
proof -
  have h1: "length (replicate 16 (0x53 :: u8)) = 16" and h2: "length (replicate 16 (0xca :: u8)) = 16"
    by simp_all
  from aes_single_round_is_spec_round [OF h1 h2] h1 h2 show ?thesis
    by blast
qed

section \<open>Keccak-1600 against the specification\<close>

lemma fold_invariant:
  assumes "P s" and "\<And>x s. P s \<Longrightarrow> P (f x s)"
  shows "P (fold f xs s)"
  using assms(1) by (induction xs arbitrary: s) (simp_all add: assms(2))

lemma length_keccak_theta: "length (keccak_theta st) = length st"
  unfolding keccak_theta_def Let_def
  by (rule fold_invariant [where P = "\<lambda>s. length s = length st"], simp)
     (rule fold_invariant, simp_all)

lemma length_keccak_rho_pi: "length (keccak_rho_pi st) = length st"
  unfolding keccak_rho_pi_def
  by (rule fold_invariant [where P = "\<lambda>p. length (fst p) = length st"])
     (simp_all add: split_beta Let_def)

lemma length_keccak_chi: "length (keccak_chi st) = length st"
  unfolding keccak_chi_def Let_def
  by (rule fold_invariant [where P = "\<lambda>s. length s = length st"], simp)
     (rule fold_invariant, simp_all)

lemma length_keccakf_round: "length (keccakf_round r st) = length st"
  by (simp add: keccakf_round_def keccak_iota_def length_keccak_chi length_keccak_rho_pi
      length_keccak_theta)

lemma length_keccakf: "length (keccakf st) = length st"
  unfolding keccakf_def
  by (rule fold_invariant [where P = "\<lambda>s. length s = length st"])
     (simp_all add: length_keccakf_round)

lemma length_xor_rate_block: "length (xor_rate_block st blk) = length st"
  unfolding xor_rate_block_def
  by (rule fold_invariant [where P = "\<lambda>s. length s = length st"]) simp_all

lemma length_keccak_absorb: "length (fst (keccak_absorb st inp)) = length st"
proof (induction st inp rule: keccak_absorb.induct)
  case (1 st inp)
  show ?case
  proof (cases "136 \<le> length inp")
    case True
    with 1 show ?thesis
      by (subst keccak_absorb.simps) (simp add: length_keccakf length_xor_rate_block)
  next
    case False
    then show ?thesis
      by (subst keccak_absorb.simps) simp
  qed
qed

lemma length_lanes_to_bytes: "length (lanes_to_bytes st) = 8 * length st"
  by (induction st) (simp_all add: lanes_to_bytes_def length_store64)

lemma length_keccak1600: "length (keccak1600 inp) = 200"
proof -
  obtain st rest where a: "keccak_absorb (replicate 25 0) inp = (st, rest)"
    by (cases "keccak_absorb (replicate 25 0) inp")
  then have "length st = 25"
    using length_keccak_absorb [of "replicate 25 0" inp] by simp
  then show ?thesis
    by (simp add: keccak1600_def a Let_def length_lanes_to_bytes length_keccakf
        length_xor_rate_block)
qed

lemma xor_rate_block_take: "xor_rate_block st (take 136 blk) = xor_rate_block st blk"
proof -
  have "load64 (read_bytes (take 136 blk) (i * 8) 8) = load64 (read_bytes blk (i * 8) 8)"
    if "i < 17" for i
  proof -
    from that have "min 8 (136 - i * 8) = 8" by simp
    then show ?thesis
      by (simp add: read_bytes_def drop_take)
  qed
  then show ?thesis
    unfolding xor_rate_block_def by (intro fold_cong refl) simp
qed

lemma spec_rate_blocks_step:
  assumes "136 \<le> length bs"
  shows "spec_rate_blocks bs = take 136 bs # spec_rate_blocks (drop 136 bs)"
proof -
  from assms have d: "length bs div 136 = Suc ((length bs - 136) div 136)"
    by (simp add: le_div_geq)
  have "[0..<Suc ((length bs - 136) div 136)] = 0 # map Suc [0..<(length bs - 136) div 136]"
    by (simp add: upt_conv_Cons map_Suc_upt del: upt_Suc)
  then show ?thesis
    by (simp add: spec_rate_blocks_def d comp_def add.commute del: upt_Suc)
qed

lemma spec_rate_blocks_single:
  assumes "length bs = 136"
  shows "spec_rate_blocks bs = [bs]"
  using assms by (simp add: spec_rate_blocks_def)

lemma keccak_last_block_pad:
  assumes "length rest < 136"
  shows "keccak_last_block rest = rest @ spec_keccak_pad (length rest)"
proof (cases "length rest = 135")
  case True
  then have "write_bytes (replicate 136 0) 0 rest = rest @ [0]"
    by (simp add: write_bytes_def)
  then show ?thesis
    using True by (simp add: keccak_last_block_def Let_def spec_keccak_pad_def nth_append
        list_update_append)
next
  case False
  with assms have r: "length rest < 135" by simp
  then have e: "136 - length rest = Suc (Suc (134 - length rest))"
    by simp
  have "replicate (Suc (Suc k)) (0 :: u8) = 0 # replicate k 0 @ [0]" for k
    by (simp add: replicate_append_same)
  then have "replicate (136 - length rest) (0 :: u8)
               = 0 # replicate (134 - length rest) 0 @ [0]"
    by (simp only: e)
  then have "write_bytes (replicate 136 0) 0 rest = rest @ 0 # replicate (134 - length rest) 0 @ [0]"
    by (simp add: write_bytes_def)
  moreover from r have "135 - length rest = Suc (134 - length rest)"
    by simp
  ultimately show ?thesis
    using r by (simp add: keccak_last_block_def Let_def spec_keccak_pad_def nth_append
        list_update_append)
qed

lemma length_spec_keccak_pad: "length (spec_keccak_pad n) = 136 - n mod 136"
proof -
  have "n mod 136 < 136" by simp
  then show ?thesis
    by (auto simp add: spec_keccak_pad_def Let_def)
qed

lemma spec_keccak_pad_drop:
  "136 \<le> n \<Longrightarrow> spec_keccak_pad (n - 136) = spec_keccak_pad n"
  by (simp add: spec_keccak_pad_def le_mod_geq)

subsection \<open>Little-endian lanes\<close>

lemma spec_le_value_bound: "spec_le_value bs < 256 ^ length bs"
proof (induction bs)
  case Nil
  show ?case by simp
next
  case (Cons b bs)
  have "unat b < 256"
    using unsigned_less [of b] by simp
  with Cons show ?case
    by simp
qed

lemma spec_le_bytes_value: "spec_le_bytes (length bs) (spec_le_value bs) = bs"
proof (induction bs)
  case Nil
  show ?case by simp
next
  case (Cons b bs)
  have b: "unat b < 256"
    using unsigned_less [of b] by simp
  then have "(unat b + 256 * spec_le_value bs) mod 256 = unat b"
    and "(unat b + 256 * spec_le_value bs) div 256 = spec_le_value bs"
    by simp_all
  with Cons show ?case
    by simp
qed

lemma byte_of_word:
  "(ucast (drop_bit (8 * k) (w :: u64)) :: u8) = word_of_nat (unat w div 256 ^ k mod 256)"
proof -
  have "unat (drop_bit (8 * k) w) = drop_bit (8 * k) (unat w)"
    by (rule unat_drop_bit_eq)
  also have "\<dots> = unat w div 256 ^ k"
    by (simp add: drop_bit_eq_div power_mult)
  finally have u: "unat (drop_bit (8 * k) w) = unat w div 256 ^ k" .
  have "(ucast (drop_bit (8 * k) w) :: u8) = word_of_nat (unat (drop_bit (8 * k) w))"
    by simp
  also have "\<dots> = word_of_nat (unat w div 256 ^ k)"
    by (simp only: u)
  also have "\<dots> = word_of_nat (unat w div 256 ^ k mod 256)"
    by (simp add: word_of_nat_eq_iff take_bit_eq_mod)
  finally show ?thesis .
qed

lemma spec_le_bytes_map:
  "spec_le_bytes n v = map (\<lambda>k. word_of_nat (v div 256 ^ k mod 256)) [0..<n]"
proof (induction n arbitrary: v)
  case 0
  show ?case by simp
next
  case (Suc n)
  have "[0..<Suc n] = 0 # map Suc [0..<n]"
    by (simp add: upt_conv_Cons map_Suc_upt del: upt_Suc)
  then show ?case
    by (simp add: Suc.IH div_mult2_eq comp_def del: upt_Suc)
qed

lemma store64_map: "store64 w = map (\<lambda>k. ucast (drop_bit (8 * k) w)) [0..<8]"
  by (simp add: store64_def upt_rec [of _ 8])

lemma store64_spec: "store64 w = spec_le_bytes 8 (unat w)"
  by (simp only: store64_map spec_le_bytes_map byte_of_word)

lemma load64_spec:
  assumes "8 \<le> length bs"
  shows "load64 bs = spec_lane bs"
proof -
  let ?v = "spec_le_value (take 8 bs)"
  have len: "length (take 8 bs) = 8"
    using assms by simp
  have "?v < 256 ^ length (take 8 bs)"
    by (rule spec_le_value_bound)
  then have "?v < 2 ^ LENGTH(64)"
    by (simp only: len) simp
  then have "unat (word_of_nat ?v :: u64) = ?v"
    by (simp add: unat_of_nat take_bit_eq_mod)
  then have "store64 (word_of_nat ?v) = spec_le_bytes (length (take 8 bs)) ?v"
    by (simp only: store64_spec len)
  then have "store64 (word_of_nat ?v) = take 8 bs"
    by (simp only: spec_le_bytes_value)
  then have "load64 (take 8 bs) = load64 (store64 (word_of_nat ?v))"
    by simp
  then show ?thesis
    by (simp add: load64_store64 load64_take spec_lane_def)
qed

lemma fold_update_upt:
  "n \<le> length st \<Longrightarrow>
     fold (\<lambda>i s. s[i := s ! i XOR f i]) [0..<n] st
       = map (\<lambda>i. if i < n then st ! i XOR f i else st ! i) [0..<length st]"
proof (induction n)
  case 0
  show ?case by (simp add: map_nth)
next
  case (Suc n)
  let ?g = "\<lambda>i. if i < n then st ! i XOR f i else st ! i"
  let ?s = "map ?g [0..<length st]"
  from Suc have IH: "fold (\<lambda>i s. s[i := s ! i XOR f i]) [0..<n] st = ?s"
    and n: "n < length st"
    by simp_all
  have "fold (\<lambda>i s. s[i := s ! i XOR f i]) [0..<Suc n] st = ?s[n := ?s ! n XOR f n]"
    by (simp add: IH)
  also have "\<dots> = map (\<lambda>i. if i < Suc n then st ! i XOR f i else st ! i) [0..<length st]"
  proof (rule nth_equalityI)
    show "length (?s[n := ?s ! n XOR f n])
            = length (map (\<lambda>i. if i < Suc n then st ! i XOR f i else st ! i) [0..<length st])"
      by simp
  next
    fix i
    assume "i < length (?s[n := ?s ! n XOR f n])"
    then have i: "i < length st" by simp
    show "?s[n := ?s ! n XOR f n] ! i
            = map (\<lambda>i. if i < Suc n then st ! i XOR f i else st ! i) [0..<length st] ! i"
    proof (cases "i = n")
      case True
      with n show ?thesis by simp
    next
      case False
      then have "i < Suc n \<longleftrightarrow> i < n" by auto
      with False i show ?thesis by simp
    qed
  qed
  finally show ?case .
qed

lemma xor_rate_block_spec:
  assumes "length st = 25" and "136 \<le> length blk"
  shows "xor_rate_block st blk = spec_absorb_block st blk"
proof -
  have lane: "load64 (read_bytes blk (i * 8) 8) = spec_lane (drop (8 * i) blk)" if "i < 17" for i
  proof -
    from that assms(2) have "8 \<le> length (drop (8 * i) blk)"
      by simp
    then have "load64 (drop (8 * i) blk) = spec_lane (drop (8 * i) blk)"
      by (rule load64_spec)
    then show ?thesis
      by (simp add: read_bytes_def load64_take mult.commute)
  qed
  have "xor_rate_block st blk
          = map (\<lambda>i. if i < 17 then st ! i XOR load64 (read_bytes blk (i * 8) 8) else st ! i)
              [0..<length st]"
    unfolding xor_rate_block_def using assms(1) by (intro fold_update_upt) simp
  also have "\<dots> = spec_absorb_block st blk"
    unfolding spec_absorb_block_def using assms(1) by (simp add: lane)
  finally show ?thesis .
qed

lemma nth_concat_store64:
  "i < 8 * length st \<Longrightarrow> concat (map store64 st) ! i = store64 (st ! (i div 8)) ! (i mod 8)"
proof (induction st arbitrary: i)
  case Nil
  then show ?case by simp
next
  case (Cons w st)
  show ?case
  proof (cases "i < 8")
    case True
    then show ?thesis
      by (simp add: nth_append length_store64)
  next
    case False
    then have i: "i = (i - 8) + 8" by simp
    with Cons.prems have "i - 8 < 8 * length st" by simp
    then have "concat (map store64 st) ! (i - 8) = store64 (st ! ((i - 8) div 8)) ! ((i - 8) mod 8)"
      by (rule Cons.IH)
    moreover from False have "i div 8 = Suc ((i - 8) div 8)" "i mod 8 = (i - 8) mod 8"
      by (simp_all add: le_div_geq le_mod_geq)
    ultimately show ?thesis
      using False by (simp add: nth_append length_store64)
  qed
qed

lemma lanes_to_bytes_spec:
  assumes "length st = 25"
  shows "lanes_to_bytes st = spec_state_bytes st"
proof (rule nth_equalityI)
  show "length (lanes_to_bytes st) = length (spec_state_bytes st)"
    using assms by (simp add: length_lanes_to_bytes spec_state_bytes_def)
next
  fix i
  assume "i < length (lanes_to_bytes st)"
  then have i: "i < 200"
    using assms by (simp add: length_lanes_to_bytes)
  then have "lanes_to_bytes st ! i = store64 (st ! (i div 8)) ! (i mod 8)"
    using assms by (simp add: lanes_to_bytes_def nth_concat_store64)
  also have "\<dots> = word_of_nat (unat (st ! (i div 8)) div 256 ^ (i mod 8) mod 256)"
    by (simp add: store64_spec spec_le_bytes_map)
  finally show "lanes_to_bytes st ! i = spec_state_bytes st ! i"
    using i by (simp add: spec_state_bytes_def)
qed

subsection \<open>Absorbing and the last block\<close>

lemma keccak_absorb_spec:
  "length st = 25 \<Longrightarrow>
   (case keccak_absorb st inp of
      (st', rest) \<Rightarrow> keccakf (xor_rate_block st' (keccak_last_block rest)))
   = foldl (\<lambda>st blk. keccakf (spec_absorb_block st blk)) st
       (spec_rate_blocks (inp @ spec_keccak_pad (length inp)))"
proof (induction st inp rule: keccak_absorb.induct)
  case (1 st inp)
  let ?padded = "inp @ spec_keccak_pad (length inp)"
  show ?case
  proof (cases "136 \<le> length inp")
    case True
    then have blocks: "spec_rate_blocks ?padded
        = take 136 inp # spec_rate_blocks (drop 136 inp @ spec_keccak_pad (length inp - 136))"
      by (simp add: spec_rate_blocks_step spec_keccak_pad_drop)
    have "136 \<le> length (take 136 inp)"
      using True by simp
    with "1.prems" have "xor_rate_block st (take 136 inp) = spec_absorb_block st (take 136 inp)"
      by (rule xor_rate_block_spec)
    then have first: "xor_rate_block st inp = spec_absorb_block st (take 136 inp)"
      by (simp only: xor_rate_block_take)
    have "length (keccakf (xor_rate_block st inp)) = 25"
      using "1.prems" by (simp add: length_keccakf length_xor_rate_block)
    with True have "(case keccak_absorb (keccakf (xor_rate_block st inp)) (drop 136 inp) of
          (st', rest) \<Rightarrow> keccakf (xor_rate_block st' (keccak_last_block rest)))
        = foldl (\<lambda>st blk. keccakf (spec_absorb_block st blk)) (keccakf (xor_rate_block st inp))
            (spec_rate_blocks (drop 136 inp @ spec_keccak_pad (length (drop 136 inp))))"
      by (rule "1.IH")
    moreover have "keccak_absorb st inp
                     = keccak_absorb (keccakf (xor_rate_block st inp)) (drop 136 inp)"
      using True by (subst keccak_absorb.simps) simp
    ultimately show ?thesis
      by (simp add: blocks first)
  next
    case False
    then have short: "length inp < 136" by simp
    then have len: "length ?padded = 136"
      by (simp add: length_spec_keccak_pad)
    then have "spec_rate_blocks ?padded = [?padded]"
      by (rule spec_rate_blocks_single)
    moreover have "keccak_absorb st inp = (st, inp)"
      using False by (subst keccak_absorb.simps) simp
    moreover have "xor_rate_block st ?padded = spec_absorb_block st ?padded"
      using "1.prems" len by (intro xor_rate_block_spec) simp_all
    ultimately show ?thesis
      using short by (simp add: keccak_last_block_pad)
  qed
qed

lemma keccak1600_is_spec_sponge:
  "keccak1600 msg = spec_keccak1600 msg"
proof -
  obtain st rest where a: "keccak_absorb (replicate 25 0) msg = (st, rest)"
    by (cases "keccak_absorb (replicate 25 0) msg")
  then have "length st = 25"
    using length_keccak_absorb [of "replicate 25 0" msg] by simp
  then have l: "length (keccakf (xor_rate_block st (keccak_last_block rest))) = 25"
    by (simp add: length_keccakf length_xor_rate_block)
  have "keccakf (xor_rate_block st (keccak_last_block rest))
          = foldl (\<lambda>st blk. keccakf (spec_absorb_block st blk)) (replicate 25 0)
              (spec_rate_blocks (msg @ spec_keccak_pad (length msg)))"
    using keccak_absorb_spec [of "replicate 25 0" msg] by (simp add: a)
  moreover have "keccak1600 msg = lanes_to_bytes (keccakf (xor_rate_block st (keccak_last_block rest)))"
    by (simp add: keccak1600_def a Let_def)
  ultimately show ?thesis
    using l by (simp add: spec_keccak1600_def lanes_to_bytes_spec)
qed

lemma snd_keccak_absorb:
  "snd (keccak_absorb st inp) = drop (136 * (length inp div 136)) inp"
proof (induction st inp rule: keccak_absorb.induct)
  case (1 st inp)
  show ?case
  proof (cases "136 \<le> length inp")
    case True
    then have d: "length inp div 136 = Suc ((length inp - 136) div 136)"
      by (simp add: le_div_geq)
    have "keccak_absorb st inp = keccak_absorb (keccakf (xor_rate_block st inp)) (drop 136 inp)"
      using True by (subst keccak_absorb.simps) simp
    with "1.IH" [OF True] show ?thesis
      by (simp add: d add.commute)
  next
    case False
    then have "keccak_absorb st inp = (st, inp)"
      by (subst keccak_absorb.simps) simp
    with False show ?thesis
      by simp
  qed
qed

lemma keccak_last_block_of_message:
  "keccak_last_block (snd (keccak_absorb st msg))
     = drop (136 * (length msg div 136)) msg @ spec_keccak_pad (length msg)"
proof -
  let ?rest = "drop (136 * (length msg div 136)) msg"
  have len: "length ?rest = length msg mod 136"
    by (simp add: minus_mult_div_eq_mod)
  then have "length ?rest < 136"
    by simp
  then have "keccak_last_block ?rest = ?rest @ spec_keccak_pad (length ?rest)"
    by (rule keccak_last_block_pad)
  moreover have "spec_keccak_pad (length ?rest) = spec_keccak_pad (length msg)"
    by (simp only: len) (simp add: spec_keccak_pad_def)
  ultimately show ?thesis
    by (simp only: snd_keccak_absorb)
qed

text \<open>
  Claim C3. For every input, of any length (0 and the multiples of 136 included),
  \<open>keccak1600\<close> is the sponge of the specification: the message followed by the
  original Keccak padding is cut into blocks of 136 bytes; each block is absorbed into the
  17 rate lanes of the state, read as little-endian 64-bit integers, and followed by one
  permutation; the result is the full state of 25 lanes as 200 bytes, not a truncated
  digest. The last block that the code builds is what is left of the message after its
  whole blocks, followed by the padding. The padded message fills whole rate blocks; its
  first byte past the message is \<open>0x01\<close>, or \<open>0x81\<close> when that byte is also the last of
  its block (the message leaves one byte of the block), and its last byte has the bit
  \<open>0x80\<close> set.
\<close>

theorem keccak1600_original_padding_full_state:
  "keccak1600 msg = spec_keccak1600 msg
   \<and> length (keccak1600 msg) = 200
   \<and> keccak_last_block (snd (keccak_absorb (replicate 25 0) msg))
        = drop (136 * (length msg div 136)) msg @ spec_keccak_pad (length msg)
   \<and> length (msg @ spec_keccak_pad (length msg)) = 136 * (length msg div 136 + 1)
   \<and> (msg @ spec_keccak_pad (length msg)) ! length msg
        = (if length msg mod 136 = 135 then 0x81 else 0x01)
   \<and> last (msg @ spec_keccak_pad (length msg)) AND 0x80 = 0x80"
proof -
  have "keccak1600 msg = spec_keccak1600 msg"
    by (rule keccak1600_is_spec_sponge)
  moreover have "length (keccak1600 msg) = 200"
    by (rule length_keccak1600)
  moreover have "keccak_last_block (snd (keccak_absorb (replicate 25 0) msg))
        = drop (136 * (length msg div 136)) msg @ spec_keccak_pad (length msg)"
    by (rule keccak_last_block_of_message)
  moreover have "length (msg @ spec_keccak_pad (length msg)) = 136 * (length msg div 136 + 1)"
    unfolding length_append length_spec_keccak_pad by presburger
  moreover have "(msg @ spec_keccak_pad (length msg)) ! length msg
        = (if length msg mod 136 = 135 then 0x81 else 0x01)"
    by (simp add: spec_keccak_pad_def Let_def)
  moreover have "last (msg @ spec_keccak_pad (length msg)) AND 0x80 = 0x80"
    by (simp add: spec_keccak_pad_def Let_def)
  ultimately show ?thesis
    by blast
qed

section \<open>The scratchpad at the entry of the main loop\<close>

text \<open>The theorems on the main loop assume a scratchpad of \<open>CN_MEMORY\<close> bytes. That is
  what \<open>cn_hash\<close> enters the loop with: the initialisation writes 128-byte strides into
  the allocated block and keeps its length.\<close>

lemma length_aes_pseudo_round:
  "length data = 16 \<Longrightarrow> length (aes_pseudo_round data key) = 16"
  unfolding aes_pseudo_round_def
  by (rule fold_invariant [where P = "\<lambda>d. length d = 16"])
     (simp_all add: length_aes_single_round)

lemma length_init_text:
  assumes "length text = 128"
  shows "length (fold (\<lambda>j text.
                      write_bytes text j
                        (aes_pseudo_round (read_bytes text j AES_BLOCK_SIZE) expanded_key))
                    text_offsets text) = 128"
proof -
  have step: "length (write_bytes t j (aes_pseudo_round (read_bytes t j AES_BLOCK_SIZE) expanded_key))
                = 128"
    if "length t = 128" "j \<in> set text_offsets" for t j
  proof -
    from that(2) have "j + 16 \<le> 128"
      by (auto simp add: text_offsets_def AES_BLOCK_SIZE_def INIT_SIZE_BYTE_def)
    moreover from this that(1) have "length (read_bytes t j AES_BLOCK_SIZE) = 16"
      by (simp add: read_bytes_def AES_BLOCK_SIZE_def)
    ultimately show ?thesis
      using that(1) by (simp add: length_write_bytes length_aes_pseudo_round)
  qed
  have "set js \<subseteq> set text_offsets \<Longrightarrow> length t = 128 \<Longrightarrow>
          length (fold (\<lambda>j text.
                      write_bytes text j
                        (aes_pseudo_round (read_bytes text j AES_BLOCK_SIZE) expanded_key))
                    js t) = 128" for js t
    by (induction js arbitrary: t) (simp_all add: step)
  then show ?thesis
    using assms by simp
qed

lemma length_init_loop:
  assumes "length hp = CN_MEMORY" and "length tx = 128" and "128 dvd i"
  shows "length (snd (init_loop i expanded_key tx hp)) = CN_MEMORY"
  using assms
proof (induction i expanded_key tx hp rule: init_loop.induct)
  case (1 i expanded_key tx hp)
  show ?case
  proof (cases "i < CN_MEMORY")
    case True
    let ?tx = "fold (\<lambda>j text.
                      write_bytes text j
                        (aes_pseudo_round (read_bytes text j AES_BLOCK_SIZE) expanded_key))
                    text_offsets tx"
    let ?hp = "write_bytes hp i (read_bytes ?tx 0 INIT_SIZE_BYTE)"
    have lt: "length ?tx = 128"
      using "1.prems"(2) by (rule length_init_text)
    from True "1.prems"(3) have "i + 128 \<le> CN_MEMORY"
      by (auto simp add: dvd_def CN_MEMORY_def)
    with lt "1.prems"(1) have lh: "length ?hp = CN_MEMORY"
      by (simp add: length_write_bytes read_bytes_def INIT_SIZE_BYTE_def)
    have "128 dvd i + INIT_SIZE_BYTE"
      using "1.prems"(3) by (simp add: INIT_SIZE_BYTE_def)
    with lh lt have "length (snd (init_loop (i + INIT_SIZE_BYTE) expanded_key ?tx ?hp)) = CN_MEMORY"
      using "1.IH" [OF True refl refl] by simp
    then show ?thesis
      using True by (subst init_loop.simps) (simp add: Let_def)
  next
    case False
    then show ?thesis
      using "1.prems"(1) by (subst init_loop.simps) simp
  qed
qed

lemma cn_hash_loop_entry_length:
  assumes "length hp = CN_MEMORY"
  shows "length (snd (init_loop 0 expanded_key
                   (read_bytes (keccak1600 input) 64 INIT_SIZE_BYTE) hp)) = CN_MEMORY"
proof -
  have "length (read_bytes (keccak1600 input) 64 INIT_SIZE_BYTE) = 128"
    by (simp add: read_bytes_def INIT_SIZE_BYTE_def length_keccak1600)
  with assms show ?thesis
    by (rule length_init_loop) simp
qed

section \<open>The entry points\<close>

lemma cn_digest_zero_finalizers: "cn_digest hp zero_finalizers input = replicate 32 0"
  by (simp add: cn_digest_def zero_finalizers_def Let_def split_beta)

lemma le_byte_of_nonce:
  "ucast (drop_bit (8 * k) (nonce :: u32) AND 0xFF) = spec_le_byte nonce k"
proof -
  have "(0xFF :: u32) = mask 8"
    by (simp add: mask_eq_exp_minus_1)
  then have "drop_bit (8 * k) nonce AND 0xFF = take_bit 8 (drop_bit (8 * k) nonce)"
    by (simp only: take_bit_eq_mask)
  then have "unat (drop_bit (8 * k) nonce AND 0xFF) = take_bit 8 (drop_bit (8 * k) (unat nonce))"
    by (simp only: unsigned_take_bit_eq unat_drop_bit_eq)
  also have "\<dots> = unat nonce div 256 ^ k mod 256"
    by (simp add: take_bit_eq_mod drop_bit_eq_div power_mult)
  finally have "unat (drop_bit (8 * k) nonce AND 0xFF) = unat nonce div 256 ^ k mod 256" .
  moreover have "(ucast (drop_bit (8 * k) nonce AND 0xFF) :: u8)
                   = word_of_nat (unat (drop_bit (8 * k) nonce AND 0xFF))"
    by simp
  ultimately show ?thesis
    by (simp only: spec_le_byte_def)
qed

lemma set_nonce_spec:
  "set_nonce input nonce =
     input[39 := spec_le_byte nonce 0, 40 := spec_le_byte nonce 1,
           41 := spec_le_byte nonce 2, 42 := spec_le_byte nonce 3]"
  using le_byte_of_nonce [of 0 nonce] le_byte_of_nonce [of 1 nonce]
    le_byte_of_nonce [of 2 nonce] le_byte_of_nonce [of 3 nonce]
  by (simp add: set_nonce_def)

lemma try_hash_input_spec:
  assumes "length blob \<le> 256"
  shows "try_hash_input blob nonce = spec_nonce_blob blob nonce"
proof -
  have w: "write_bytes (replicate 256 0) 0 blob = blob @ replicate (256 - length blob) 0"
    by (simp add: write_bytes_def)
  show ?thesis
    by (simp add: try_hash_input_def Let_def w read_bytes_def set_nonce_spec spec_nonce_blob_def
        take_update_swap)
qed

lemma try_hash_too_long:
  "256 < length (blob_buf mem) \<Longrightarrow> try_hash malloc_result fin mem nonce target = (0, mem)"
  by (simp add: try_hash_def Let_def)

subsection \<open>Allocation failure\<close>

text \<open>
  Claim C7, as amended. If the allocation of the 2 MiB scratchpad fails, \<open>cn_hash\<close>
  returns to its caller without reporting an error (it returns \<open>void\<close>), emits no digest
  and leaves the output buffer as it was: the whole effect of the call is the unchanged
  output buffer.
\<close>

theorem cn_hash_allocation_failure_untouched:
  "cn_hash None fin input output = output"
  by (simp add: cn_hash_def)

text \<open>
  Claim C7 as stated fails: no error reaches the caller. With the allocation failing, a
  call of the exported \<open>try_hash\<close> on an empty blob, an output buffer of 32 zero bytes and
  target 1 returns 1, the value it returns for a hash below the target, and the buffer is
  as before. The final hash functions are not reached on this path.
\<close>

theorem try_hash_allocation_failure_returns_1:
  "try_hash None zero_finalizers \<lparr>blob_buf = [], out_buf = replicate 32 0\<rparr> 0 1
     = (1, \<lparr>blob_buf = [], out_buf = replicate 32 0\<rparr>)"
  by (simp add: try_hash_def try_hash_input_def cn_hash_def Let_def read_bytes_def write_bytes_def
      load64_def)

subsection \<open>The digest and the target\<close>

text \<open>
  Claim C8 as stated fails for a blob of more than 256 bytes: for 257 bytes, the output
  buffer (32 bytes \<open>0xFF\<close>) is left as it was and the call returns 0, although the
  digest of that input (32 zero bytes with the stand-in final hashes) has the word 0 at
  bytes 24..32, which is below the target 1. The guard \<open>if (blob_len > 256) return 0;\<close>
  comes before anything else; the final hash functions are not reached.
\<close>

theorem try_hash_long_blob_writes_no_digest:
  "try_hash (Some (replicate 2097152 0)) zero_finalizers
       \<lparr>blob_buf = replicate 257 0, out_buf = replicate 32 0xFF\<rparr> 0 1
     = (0, \<lparr>blob_buf = replicate 257 0, out_buf = replicate 32 0xFF\<rparr>)
   \<and> cn_digest (replicate 2097152 0) zero_finalizers (try_hash_input (replicate 257 0) 0)
       = replicate 32 0
   \<and> load64 (read_bytes (replicate 32 0) 24 8) < (1 :: u64)"
proof -
  have "try_hash (Some (replicate 2097152 0)) zero_finalizers
            \<lparr>blob_buf = replicate 257 0, out_buf = replicate 32 0xFF\<rparr> 0 1
          = (0, \<lparr>blob_buf = replicate 257 0, out_buf = replicate 32 0xFF\<rparr>)"
    by (rule try_hash_too_long) simp
  moreover have "load64 (read_bytes (replicate 32 0) 24 8) < (1 :: u64)"
    by (simp add: load64_def read_bytes_def)
  ultimately show ?thesis
    by (simp only: cn_digest_zero_finalizers)
qed

text \<open>
  Claim C8, as amended. For every blob of at most 256 bytes, every nonce and every
  target, when the scratchpad is allocated (and the output buffer has 32 bytes, which the
  selected final hash fills), \<open>try_hash\<close> leaves the full 32-byte digest in the output
  buffer, whatever the comparison gives, and returns non-zero if and only if the
  unsigned 64-bit little-endian word at bytes 24..32 of that digest is strictly less
  than the target.
\<close>

theorem try_hash_writes_digest_and_compares:
  assumes "length (blob_buf mem) \<le> 256"
    and "length (out_buf mem) = 32"
    and "length (cn_digest hp fin (try_hash_input (blob_buf mem) nonce)) = 32"
  shows "out_buf (snd (try_hash (Some hp) fin mem nonce target))
           = cn_digest hp fin (try_hash_input (blob_buf mem) nonce)
       \<and> (fst (try_hash (Some hp) fin mem nonce target) \<noteq> 0
            \<longleftrightarrow> load64 (read_bytes (cn_digest hp fin (try_hash_input (blob_buf mem) nonce)) 24 8)
                  < target)"
proof -
  let ?d = "cn_digest hp fin (try_hash_input (blob_buf mem) nonce)"
  have "cn_hash (Some hp) fin (try_hash_input (blob_buf mem) nonce) (out_buf mem) = ?d"
    using assms(2,3) by (simp add: cn_hash_def write_bytes_def)
  then show ?thesis
    using assms(1) by (simp add: try_hash_def Let_def)
qed

theorem try_hash_writes_digest_and_compares_witness:
  "length (blob_buf \<lparr>blob_buf = replicate 76 7, out_buf = replicate 32 0\<rparr>) \<le> 256
   \<and> length (out_buf \<lparr>blob_buf = replicate 76 7, out_buf = replicate 32 0\<rparr>) = 32
   \<and> length (cn_digest (replicate 2097152 0) zero_finalizers
        (try_hash_input (blob_buf \<lparr>blob_buf = replicate 76 7, out_buf = replicate 32 0\<rparr>) 5)) = 32
   \<and> out_buf (snd (try_hash (Some (replicate 2097152 0)) zero_finalizers
          \<lparr>blob_buf = replicate 76 7, out_buf = replicate 32 0\<rparr> 5 1))
        = cn_digest (replicate 2097152 0) zero_finalizers
            (try_hash_input (blob_buf \<lparr>blob_buf = replicate 76 7, out_buf = replicate 32 0\<rparr>) 5)"
proof -
  let ?mem = "\<lparr>blob_buf = replicate 76 7, out_buf = replicate 32 0\<rparr>"
  have h1: "length (blob_buf ?mem) \<le> 256" and h2: "length (out_buf ?mem) = 32"
    by simp_all
  have h3: "length (cn_digest (replicate 2097152 0) zero_finalizers
              (try_hash_input (blob_buf ?mem) 5)) = 32"
    by (simp only: cn_digest_zero_finalizers) simp
  from try_hash_writes_digest_and_compares [OF h1 h2 h3, of 1] h1 h2 h3 show ?thesis
    by blast
qed

subsection \<open>The nonce\<close>

text \<open>
  Claim C9 as stated fails for a blob of more than 256 bytes, whose length is at least
  43: for 300 bytes, nothing is copied, no nonce is written and nothing is hashed, so the
  output buffer is not what hashing the blob with the nonce at offset 39 would leave
  there.
\<close>

theorem try_hash_long_blob_not_hashed:
  "out_buf (snd (try_hash (Some (replicate 2097152 0)) zero_finalizers
       \<lparr>blob_buf = replicate 300 0, out_buf = replicate 32 0xFF\<rparr> 0x01020304 1))
     \<noteq> cn_hash (Some (replicate 2097152 0)) zero_finalizers
         (spec_nonce_blob (replicate 300 0) 0x01020304) (replicate 32 0xFF)"
proof -
  have "try_hash (Some (replicate 2097152 0)) zero_finalizers
            \<lparr>blob_buf = replicate 300 0, out_buf = replicate 32 0xFF\<rparr> 0x01020304 1
          = (0, \<lparr>blob_buf = replicate 300 0, out_buf = replicate 32 0xFF\<rparr>)"
    by (rule try_hash_too_long) simp
  moreover have "cn_hash (Some (replicate 2097152 0)) zero_finalizers
                   (spec_nonce_blob (replicate 300 0) 0x01020304) (replicate 32 0xFF)
                 = replicate 32 0"
    by (simp add: cn_hash_def cn_digest_zero_finalizers write_bytes_def)
  moreover have "replicate 32 (0xFF :: u8) \<noteq> replicate 32 0"
    by (simp add: replicate_eq_replicate)
  ultimately show ?thesis
    by simp
qed

text \<open>
  Claim C9, as amended. \<open>try_hash\<close> writes the 32-bit nonce in little-endian order at
  byte offsets 39..42 of its internal copy of the blob if and only if the blob length is
  at least 43 and at most 256; a blob of fewer than 43 bytes is hashed unmodified; for a
  blob of more than 256 bytes nothing is hashed, the call returns 0 and writes nothing.
  In every case the caller's blob buffer is as before the call.
\<close>

theorem try_hash_nonce_placement:
  "try_hash malloc_result fin mem nonce target
     = (if 256 < length (blob_buf mem) then (0, mem)
        else (if load64 (read_bytes
                  (cn_hash malloc_result fin (spec_nonce_blob (blob_buf mem) nonce) (out_buf mem))
                  24 8) < target then 1 else 0,
              mem\<lparr>out_buf :=
                cn_hash malloc_result fin (spec_nonce_blob (blob_buf mem) nonce) (out_buf mem)\<rparr>))
   \<and> blob_buf (snd (try_hash malloc_result fin mem nonce target)) = blob_buf mem"
proof (cases "256 < length (blob_buf mem)")
  case True
  then show ?thesis
    by (simp add: try_hash_too_long)
next
  case False
  then have "try_hash_input (blob_buf mem) nonce = spec_nonce_blob (blob_buf mem) nonce"
    by (simp add: try_hash_input_spec)
  with False show ?thesis
    by (simp add: try_hash_def Let_def)
qed

subsection \<open>The host-visible entry\<close>

text \<open>
  Claim C10. \<open>cn_slow_hash\<close> invoked with a variant other than 0 fails with
  \<open>UnsupportedVariant\<close>, whatever the other arguments are and whether or not a scratchpad
  could be allocated, and the output buffer is unmodified.
\<close>

theorem cn_slow_hash_rejects_other_variants:
  assumes "variant \<noteq> 0"
  shows "cn_slow_hash malloc_result fin data hash variant prehashed height
           = (Some UnsupportedVariant, hash)"
  using assms by (simp add: cn_slow_hash_def)

theorem cn_slow_hash_rejects_other_variants_witness:
  "(1 :: int) \<noteq> 0
   \<and> cn_slow_hash (Some (replicate 2097152 0)) zero_finalizers [1, 2, 3] (replicate 32 0xAA) 1 0 0
       = (Some UnsupportedVariant, replicate 32 0xAA)"
proof -
  have h: "(1 :: int) \<noteq> 0" by simp
  from cn_slow_hash_rejects_other_variants [OF h] h show ?thesis
    by blast
qed

end
